theory Spec2Isabelle
  imports Main
begin

section \<open>llmcord: the message handler \<open>on_message\<close> of \<open>llmcord.py\<close>\<close>

text \<open>
  The handler is one coroutine. It is embedded phase by phase, in the order of the source:
  the walk up the reply chain (lines 86 to 130), the assembly of the prompt (lines 133 to
  146), the streaming loop that renders the completion into embeds (lines 147 to 188) and
  the image branch with the bookkeeping at the end (lines 190 to 227).

  Text is a \<open>string\<close>; one \<open>char\<close> stands for one character of the Python \<open>str\<close>, so
  \<open>length\<close> is Python's \<open>len\<close> on text of 8-bit characters. Message identifiers are
  naturals. Everything the handler asks of the outside world (the platform's answers, the
  clock, the state of an edit task, the image service) is an input of the model.
\<close>

subsection \<open>Constants and errors\<close>

definition EMBED_MAX_LENGTH :: nat where
  "EMBED_MAX_LENGTH = 4096"

datatype py_error =
    IndexError
  | KeyError
  | ValueError
  | UnboundLocalError
  | HTTPException
  | ServiceError
  | APIError

text \<open>The keys of \<open>EMBED_COLOR\<close>.\<close>

datatype status = incomplete | complete

text \<open>
  The two warning strings. \<open>MAX_IMAGE_WARNING\<close> starts with \<open>Max\<close> or \<open>Can't\<close> after the
  common sign and \<open>MAX_MESSAGE_WARNING\<close> with \<open>Only\<close>, so the strings differ for every
  configuration and \<open>sorted\<close> puts the image warning first.
\<close>

datatype warning = MAX_IMAGE_WARNING | MAX_MESSAGE_WARNING

definition sorted_warnings :: "warning set \<Rightarrow> warning list" where
  "sorted_warnings user_warnings =
     filter (\<lambda>w. w \<in> user_warnings) [MAX_IMAGE_WARNING, MAX_MESSAGE_WARNING]"

subsection \<open>Configuration and strings\<close>

text \<open>
  What the module reads from the environment and from the client at start-up:
  \<open>MAX_IMAGES_env\<close> is \<open>int(os.environ["MAX_IMAGES"])\<close>, \<open>bot_id\<close> and \<open>bot_mention\<close>
  are \<open>discord_client.user.id\<close> and \<open>discord_client.user.mention\<close>.
\<close>

record config =
  LLM :: string
  MAX_IMAGES_env :: int
  MAX_MESSAGES :: int
  CUSTOM_SYSTEM_PROMPT :: string
  bot_id :: nat
  bot_mention :: string

text \<open>Python's \<open>sub in s\<close> on strings.\<close>

fun contains :: "string \<Rightarrow> string \<Rightarrow> bool" where
  "contains sub [] = (sub = [])"
| "contains sub (c # cs) = (take (length sub) (c # cs) = sub \<or> contains sub cs)"

definition LLM_VISION_SUPPORT :: "config \<Rightarrow> bool" where
  "LLM_VISION_SUPPORT cfg = contains ''vision'' (LLM cfg)"

definition MAX_IMAGES :: "config \<Rightarrow> int" where
  "MAX_IMAGES cfg = (if LLM_VISION_SUPPORT cfg then MAX_IMAGES_env cfg else 0)"

text \<open>Python's \<open>xs[:k]\<close>: a negative \<open>k\<close> counts from the end.\<close>

definition py_take :: "int \<Rightarrow> 'a list \<Rightarrow> 'a list" where
  "py_take k xs = (if 0 \<le> k then take (nat k) xs else take (length xs - nat (- k)) xs)"

text \<open>\<open>str.isspace\<close>, \<open>str.lower\<close>, \<open>str.lstrip\<close> and \<open>str.strip\<close> on 8-bit characters.\<close>

definition is_space :: "char \<Rightarrow> bool" where
  "is_space c =
     (let n = (of_char c :: nat)
      in (9 \<le> n \<and> n \<le> 13) \<or> (28 \<le> n \<and> n \<le> 32) \<or> n = 133 \<or> n = 160)"

definition lower_char :: "char \<Rightarrow> char" where
  "lower_char c =
     (let n = (of_char c :: nat)
      in if (65 \<le> n \<and> n \<le> 90) \<or> (192 \<le> n \<and> n \<le> 222 \<and> n \<noteq> 215)
         then char_of (n + 32) else c)"

definition lower :: "string \<Rightarrow> string" where
  "lower s = map lower_char s"

definition lstrip :: "string \<Rightarrow> string" where
  "lstrip s = dropWhile is_space s"

definition strip :: "string \<Rightarrow> string" where
  "strip s = rev (dropWhile is_space (rev (dropWhile is_space s)))"

text \<open>
  \<open>s.split(sep)\<close> for a separator that is not empty: the pieces between the occurrences
  of \<open>sep\<close>, found from the left. \<open>piece\<close> holds the current piece backwards.
\<close>

function split_from :: "string \<Rightarrow> string \<Rightarrow> string \<Rightarrow> string list" where
  "split_from sep piece [] = [rev piece]"
| "split_from sep piece (c # cs) =
     (if sep \<noteq> [] \<and> take (length sep) (c # cs) = sep
      then rev piece # split_from sep [] (drop (length sep) (c # cs))
      else split_from sep (c # piece) cs)"
  by pat_completeness auto
termination
  by (relation "measure (\<lambda>(sep, piece, s). length s)") auto

definition split :: "string \<Rightarrow> string \<Rightarrow> py_error + string list" where
  "split sep s = (if sep = [] then Inl ValueError else Inr (split_from sep [] s))"

text \<open>\<open>str\<close> of an identifier: its decimal digits.\<close>

fun str :: "nat \<Rightarrow> string" where
  "str n = (if n < 10 then [char_of (48 + n)] else str (n div 10) @ [char_of (48 + n mod 10)])"

declare str.simps [simp del]

subsection \<open>Messages of the platform and nodes of the conversation\<close>

record attachment =
  url :: string
  content_type :: string

text \<open>
  A \<open>discord.Message\<close> as far as the handler reads it: \<open>embeds\<close> are the descriptions of
  its embeds, \<open>mentions\<close> the identifiers of the users mentioned, \<open>resolved\<close> the message
  replied to when the platform sent it along (\<open>None\<close>: not a \<open>discord.Message\<close>).
\<close>

datatype discord_message =
  Message (msg_id: nat) (author_id: nat) (author_bot: bool) (msg_content: string)
    (embeds: "string list") (attachments: "attachment list")
    (reference: "reference option") (channel_private: bool) (mentions: "nat list")
and reference =
  Reference (ref_message_id: nat) (resolved: "discord_message option")

datatype role = System | User | Assistant

datatype content_part = text_part string | image_url string

text \<open>The content of a prompt entry: a list of parts, or a plain string.\<close>

datatype content = Parts "content_part list" | Text string

record prompt_entry =
  role :: role
  content :: content
  name :: "string option"

text \<open>
  A \<open>MessageNode\<close> is an object; \<open>replied_to\<close> refers to another such object. The store
  keeps the objects in the order of their creation, a reference being the position of its
  object, and the dictionary \<open>message_nodes\<close> from identifiers to references.
\<close>

record MessageNode =
  message :: prompt_entry
  too_many_images :: bool
  replied_to :: "nat option"

record store =
  message_nodes :: "nat \<rightharpoonup> nat"
  objects :: "MessageNode list"

text \<open>What \<open>fetch_message\<close> does: the message, \<open>discord.NotFound\<close> or another \<open>discord.HTTPException\<close>.\<close>

datatype fetch_result = Fetched discord_message | NotFound | HTTPError

subsection \<open>The walk up the reply chain (lines 86 to 130)\<close>

text \<open>
  Lines 89 to 91: the text of the current message. A message of the bot is read from its
  first embed, which raises when it has none; a leading mention of the bot is cut off.
\<close>

definition current_message_text :: "config \<Rightarrow> discord_message \<Rightarrow> py_error + string" where
  "current_message_text cfg current_message =
     (case (if author_id current_message = bot_id cfg
            then (case embeds current_message of
                    [] \<Rightarrow> Inl IndexError
                  | d # ds \<Rightarrow> Inr d)
            else Inr (msg_content current_message)) of
        Inl e \<Rightarrow> Inl e
      | Inr t \<Rightarrow>
          Inr (if take (length (bot_mention cfg)) t = bot_mention cfg
               then lstrip (drop (length (bot_mention cfg)) t)
               else t))"

text \<open>Lines 93 to 100: one image reference for every attachment whose type names an image.\<close>

definition current_message_images :: "discord_message \<Rightarrow> content_part list" where
  "current_message_images current_message =
     map (\<lambda>att. image_url (url att))
       (filter (\<lambda>att. contains ''image'' (content_type att)) (attachments current_message))"

text \<open>Lines 92 and 101 to 104.\<close>

definition current_message_content :: "config \<Rightarrow> string \<Rightarrow> content_part list \<Rightarrow> content" where
  "current_message_content cfg text images =
     (if contains ''mistral'' (LLM cfg) then Text text
      else Parts ((if text \<noteq> [] then [text_part text] else [])
                  @ py_take (MAX_IMAGES cfg) images))"

text \<open>\<open>message_nodes[key]\<close> changed in place by \<open>f\<close>; a missing key raises.\<close>

definition update_node :: "nat \<Rightarrow> (MessageNode \<Rightarrow> MessageNode) \<Rightarrow> store \<Rightarrow> py_error + store" where
  "update_node key f st =
     (case message_nodes st key of
        None \<Rightarrow> Inl KeyError
      | Some a \<Rightarrow> Inr (st\<lparr>objects := (objects st)[a := f (objects st ! a)]\<rparr>))"

text \<open>\<open>message_nodes[key] = node\<close> for a node just constructed.\<close>

definition store_node :: "nat \<Rightarrow> MessageNode \<Rightarrow> store \<Rightarrow> store" where
  "store_node key node st =
     st\<lparr>message_nodes := (message_nodes st)(key \<mapsto> length (objects st)),
        objects := objects st @ [node]\<rparr>"

text \<open>
  Lines 89 to 116, the part of an iteration that builds the node of \<open>current_message\<close>
  and links the node built before to it. \<open>if previous_message_id\<close> skips \<open>None\<close> and 0.
\<close>

definition visit :: "config \<Rightarrow> discord_message \<Rightarrow> nat option \<Rightarrow> store \<Rightarrow> py_error + store" where
  "visit cfg current_message previous_message_id st =
     (case current_message_text cfg current_message of
        Inl e \<Rightarrow> Inl e
      | Inr text \<Rightarrow>
          (let images = current_message_images current_message;
               node = \<lparr>message =
                         \<lparr>role = (if author_id current_message = bot_id cfg then Assistant else User),
                          content = current_message_content cfg text images,
                          name = Some (str (author_id current_message))\<rparr>,
                       too_many_images = False, replied_to = None\<rparr>;
               st1 = store_node (msg_id current_message) node st
           in case (if int (length images) > MAX_IMAGES cfg
                    then update_node (msg_id current_message)
                           (\<lambda>n. n\<lparr>too_many_images := True\<rparr>) st1
                    else Inr st1) of
                Inl e \<Rightarrow> Inl e
              | Inr st2 \<Rightarrow>
                  (case previous_message_id of
                     None \<Rightarrow> Inr st2
                   | Some p \<Rightarrow>
                       if p = 0 then Inr st2
                       else (case message_nodes st2 (msg_id current_message) of
                               None \<Rightarrow> Inl KeyError
                             | Some a \<Rightarrow> update_node p (\<lambda>n. n\<lparr>replied_to := Some a\<rparr>) st2))))"

text \<open>
  The loop of lines 88 to 130. It ends at a message without reference, at a reference that
  \<open>message_nodes\<close> knows, and at a fetch that fails; every other iteration goes on with a
  message the platform supplies, so nothing bounds the number of iterations and the
  model counts them down: \<open>None\<close> says that \<open>fuel\<close> iterations were not enough.
\<close>

fun chain_loop ::
  "nat \<Rightarrow> config \<Rightarrow> (nat \<Rightarrow> fetch_result) \<Rightarrow> discord_message \<Rightarrow> nat option \<Rightarrow> store
     \<Rightarrow> (py_error + store) option"
where
  "chain_loop 0 cfg fetch_message current_message previous_message_id st = None"
| "chain_loop (Suc fuel) cfg fetch_message current_message previous_message_id st =
     (case visit cfg current_message previous_message_id st of
        Inl e \<Rightarrow> Some (Inl e)
      | Inr st1 \<Rightarrow>
          (case reference current_message of
             None \<Rightarrow> Some (Inr st1)
           | Some r \<Rightarrow>
               (case message_nodes st1 (ref_message_id r) of
                  Some target \<Rightarrow>
                    Some (update_node (msg_id current_message)
                            (\<lambda>n. n\<lparr>replied_to := Some target\<rparr>) st1)
                | None \<Rightarrow>
                    (case resolved r of
                       Some m \<Rightarrow>
                         chain_loop fuel cfg fetch_message m (Some (msg_id current_message)) st1
                     | None \<Rightarrow>
                         (case fetch_message (ref_message_id r) of
                            Fetched m \<Rightarrow>
                              chain_loop fuel cfg fetch_message m
                                (Some (msg_id current_message)) st1
                          | NotFound \<Rightarrow> Some (Inr st1)
                          | HTTPError \<Rightarrow> Some (Inr st1))))))"

subsection \<open>The prompt (lines 132 to 146)\<close>

text \<open>
  \<open>get_system_prompt\<close>; \<open>date\<close> is \<open>datetime.now().strftime('%B %d %Y')\<close>. The entry has
  no \<open>name\<close>.
\<close>

definition get_system_prompt :: "config \<Rightarrow> string \<Rightarrow> prompt_entry list" where
  "get_system_prompt cfg date =
     (if LLM cfg = ''local-model'' \<or> contains ''mistral'' (LLM cfg)
      then [\<lparr>role = System,
             content = Text (CUSTOM_SYSTEM_PROMPT cfg @ [CHR 0x0A] @ ''Current date: '' @ date),
             name = None\<rparr>]
      else [\<lparr>role = System,
             content = Text (CUSTOM_SYSTEM_PROMPT cfg @ [CHR 0x0A]
               @ ''User'' @ [CHR 0x27]
               @ ''s names are their Discord IDs and should be typed as '' @ [CHR 0x27]
               @ ''<@ID>'' @ [CHR 0x27] @ ''.'' @ [CHR 0x0A] @ ''Current date: '' @ date),
             name = None\<rparr>])"

text \<open>
  The loop of lines 136 to 142 on the objects of the store. It ends because the chain
  collected grows up to \<open>MAX_MESSAGES\<close>.
\<close>

function history_loop ::
  "int \<Rightarrow> MessageNode list \<Rightarrow> nat option \<Rightarrow> prompt_entry list \<Rightarrow> warning set
     \<Rightarrow> prompt_entry list \<times> warning set"
where
  "history_loop max_messages objs current_node reply_chain user_warnings =
     (case current_node of
        None \<Rightarrow> (reply_chain, user_warnings)
      | Some a \<Rightarrow>
          if int (length reply_chain) < max_messages
          then (let node = objs ! a;
                    reply_chain' = reply_chain @ [message node];
                    warnings1 = (if too_many_images node
                                 then insert MAX_IMAGE_WARNING user_warnings
                                 else user_warnings);
                    warnings2 = (if int (length reply_chain') = max_messages
                                    \<and> replied_to node \<noteq> None
                                 then insert MAX_MESSAGE_WARNING warnings1
                                 else warnings1)
                in history_loop max_messages objs (replied_to node) reply_chain' warnings2)
          else (reply_chain, user_warnings))"
  by pat_completeness auto
termination
  by (relation "measure (\<lambda>(max_messages, objs, current_node, reply_chain, user_warnings).
        nat (max_messages - int (length reply_chain)))") auto

declare history_loop.simps [simp del]

text \<open>
  Lines 133 to 146: the node of the triggering message, the loop, the prompt, and the
  log line, which reads \<open>reply_chain[0]\<close> and raises when nothing was collected.
\<close>

definition build_history ::
  "config \<Rightarrow> string \<Rightarrow> store \<Rightarrow> nat \<Rightarrow> py_error + prompt_entry list \<times> warning set"
where
  "build_history cfg date st message_id =
     (case message_nodes st message_id of
        None \<Rightarrow> Inl KeyError
      | Some a \<Rightarrow>
          (case history_loop (MAX_MESSAGES cfg) (objects st) (Some a) [] {} of
             (reply_chain, user_warnings) \<Rightarrow>
               (case reply_chain of
                  [] \<Rightarrow> Inl IndexError
                | c # cs \<Rightarrow> Inr (get_system_prompt cfg date @ rev reply_chain, user_warnings))))"

subsection \<open>The streaming loop (lines 147 to 188)\<close>

text \<open>A \<open>discord.Embed\<close>: its description, its colour and the names of its fields.\<close>

record Embed =
  description :: string
  color :: status
  embed_fields :: "warning list"

text \<open>
  What the loop does to the platform, in order: \<open>Reply target new_id e\<close> is
  \<open>reply_message.reply(embed=e)\<close> on the message \<open>target\<close>, returning the message
  \<open>new_id\<close>; \<open>Edit block e\<close> is the task created for \<open>response_messages[-1].edit(embed=e)\<close>;
  \<open>Wait\<close> is the loop of lines 182 and 183 spinning until the edit task created before
  is done.
\<close>

datatype event =
    Reply nat nat Embed
  | Wait
  | Edit nat Embed

text \<open>
  The answers of the outside world during one iteration: what \<open>reply\<close> returns if it is
  called (\<open>None\<close>: it raises \<open>discord.HTTPException\<close>), whether the edit task created
  before is done, and whether
  \<open>datetime.now().timestamp() - last_message_task_time >= len(in_progress_message_ids) / EDITS_PER_SECOND\<close>
  holds. The comparison is on floating-point clock readings; the model takes its outcome.
\<close>

record observation =
  reply_result :: "nat option"
  task_done :: bool
  elapsed_ok :: bool

text \<open>
  The variables of the loop and the global list \<open>in_progress_message_ids\<close>.
  \<open>edit_message_task\<close> is \<open>None\<close> or the task that edits the named block; \<open>embed\<close> is
  unbound (\<open>None\<close>) until the first segment is opened.
\<close>

record stream_state =
  response_messages :: "nat list"
  response_message_contents :: "string list"
  previous_content :: "string option"
  edit_message_task :: "nat option"
  embed :: "Embed option"
  in_progress_message_ids :: "nat list"
  events :: "event list"

definition stream_init :: "nat list \<Rightarrow> stream_state" where
  "stream_init ids =
     \<lparr>response_messages = [], response_message_contents = [], previous_content = None,
      edit_message_task = None, embed = None, in_progress_message_ids = ids, events = []\<rparr>"

text \<open>\<open>response_message_contents[-1]\<close>, which raises on the empty list.\<close>

definition last_content :: "stream_state \<Rightarrow> py_error + string" where
  "last_content s =
     (case response_message_contents s of
        [] \<Rightarrow> Inl IndexError
      | c # cs \<Rightarrow> Inr (last (c # cs)))"

text \<open>The condition of line 159.\<close>

definition needs_new_message :: "string \<Rightarrow> stream_state \<Rightarrow> py_error + bool" where
  "needs_new_message previous s =
     (if response_messages s = [] then Inr True
      else case last_content s of
             Inl e \<Rightarrow> Inl e
           | Inr c \<Rightarrow> Inr (length (c @ previous) > EMBED_MAX_LENGTH))"

text \<open>Lines 160 to 173: a new embed, sent as a reply, opens a new segment.\<close>

definition open_segment ::
  "nat \<Rightarrow> warning set \<Rightarrow> observation \<Rightarrow> string \<Rightarrow> string \<Rightarrow> stream_state \<Rightarrow> py_error + stream_state"
where
  "open_segment message_id user_warnings ob previous current s =
     (let reply_message =
            (if response_messages s = [] then message_id else last (response_messages s));
          e = \<lparr>description = previous,
               color = (if current = [] then complete else incomplete),
               embed_fields = sorted_warnings user_warnings\<rparr>
      in case reply_result ob of
           None \<Rightarrow> Inl HTTPException
         | Some new_id \<Rightarrow>
             Inr (s\<lparr>response_messages := response_messages s @ [new_id],
                    response_message_contents := response_message_contents s @ [[]],
                    embed := Some e,
                    in_progress_message_ids := in_progress_message_ids s @ [new_id],
                    events := events s @ [Reply reply_message new_id e]\<rparr>))"

text \<open>Line 174: \<open>response_message_contents[-1] += previous_content\<close>.\<close>

definition append_previous :: "string \<Rightarrow> stream_state \<Rightarrow> py_error + stream_state" where
  "append_previous previous s =
     (case response_message_contents s of
        [] \<Rightarrow> Inl IndexError
      | c # cs \<Rightarrow>
          Inr (s\<lparr>response_message_contents := butlast (c # cs) @ [last (c # cs) @ previous]\<rparr>))"

text \<open>
  Lines 176 to 187, reached when the segment holds more than the fragment just appended.
  The edit is a task that is created and not awaited; the only wait is the loop in front
  of it, on the task created before.
\<close>

definition flush :: "observation \<Rightarrow> string \<Rightarrow> stream_state \<Rightarrow> py_error + stream_state" where
  "flush ob current s =
     (case last_content s of
        Inl e \<Rightarrow> Inl e
      | Inr c \<Rightarrow>
          (let final_message_edit = (length (c @ current) > EMBED_MAX_LENGTH \<or> current = [])
           in if final_message_edit
                 \<or> (edit_message_task s = None \<or> task_done ob) \<and> elapsed_ok ob
              then (case embed s of
                      None \<Rightarrow> Inl UnboundLocalError
                    | Some e0 \<Rightarrow>
                        (case response_messages s of
                           [] \<Rightarrow> Inl IndexError
                         | r # rs \<Rightarrow>
                             (let waiting =
                                    (if edit_message_task s \<noteq> None \<and> \<not> task_done ob
                                     then [Wait] else []);
                                  e = e0\<lparr>description := c,
                                         color := (if final_message_edit then complete
                                                   else incomplete)\<rparr>
                              in Inr (s\<lparr>embed := Some e,
                                        edit_message_task := Some (last (r # rs)),
                                        events := events s @ waiting @ [Edit (last (r # rs)) e]\<rparr>))))
              else Inr s))"

text \<open>
  One iteration of the \<open>async for\<close>: \<open>chunk\<close> is \<open>chunk.choices[0].delta.content\<close>, which
  may be \<open>None\<close>. The fragment handled in an iteration is the one received in the
  iteration before; \<open>if previous_content\<close> skips \<open>None\<close> and the empty string.
\<close>

definition on_chunk ::
  "nat \<Rightarrow> warning set \<Rightarrow> stream_state \<Rightarrow> string option \<times> observation \<Rightarrow> py_error + stream_state"
where
  "on_chunk message_id user_warnings s inp =
     (let current_content = (case fst inp of None \<Rightarrow> [] | Some c \<Rightarrow> c);
          ob = snd inp
      in case previous_content s of
           None \<Rightarrow> Inr (s\<lparr>previous_content := Some current_content\<rparr>)
         | Some previous \<Rightarrow>
             if previous = [] then Inr (s\<lparr>previous_content := Some current_content\<rparr>)
             else
               (case needs_new_message previous s of
                  Inl e \<Rightarrow> Inl e
                | Inr new \<Rightarrow>
                    (case (if new
                           then open_segment message_id user_warnings ob previous current_content s
                           else Inr s) of
                       Inl e \<Rightarrow> Inl e
                     | Inr s1 \<Rightarrow>
                         (case append_previous previous s1 of
                            Inl e \<Rightarrow> Inl e
                          | Inr s2 \<Rightarrow>
                              (case last_content s2 of
                                 Inl e \<Rightarrow> Inl e
                               | Inr c \<Rightarrow>
                                   (case (if c \<noteq> previous then flush ob current_content s2
                                          else Inr s2) of
                                      Inl e \<Rightarrow> Inl e
                                    | Inr s3 \<Rightarrow>
                                        Inr (s3\<lparr>previous_content := Some current_content\<rparr>)))))))"

text \<open>The whole loop over a stream that ends: the chunks with the answers of the world.\<close>

fun stream_loop ::
  "nat \<Rightarrow> warning set \<Rightarrow> (string option \<times> observation) list \<Rightarrow> stream_state \<Rightarrow> py_error + stream_state"
where
  "stream_loop message_id user_warnings [] s = Inr s"
| "stream_loop message_id user_warnings (x # xs) s =
     (case on_chunk message_id user_warnings s x of
        Inl e \<Rightarrow> Inl e
      | Inr s' \<Rightarrow> stream_loop message_id user_warnings xs s')"

text \<open>The text of a chunk: \<open>chunk.choices[0].delta.content or ""\<close>.\<close>

definition fragment :: "string option \<times> observation \<Rightarrow> string" where
  "fragment inp = (case fst inp of None \<Rightarrow> [] | Some c \<Rightarrow> c)"

subsection \<open>The image branch and the nodes of the reply (lines 190 to 227)\<close>

text \<open>
  The answers of the image service and of the platform in the image branch:
  \<open>post_result\<close> is the status code of \<open>requests.post\<close> (\<open>None\<close>: it raises),
  \<open>image_sent\<close> says that lines 205 to 210 (decoding, saving and sending the picture) go
  through, \<open>apology_sent\<close> that the reply of line 212 does.
\<close>

record image_answers =
  post_result :: "nat option"
  image_sent :: bool
  apology_sent :: bool

text \<open>
  Lines 218 to 227, one iteration for every message in \<open>response_messages\<close>: a new node
  for it, then its identifier is taken out of \<open>in_progress_message_ids\<close>
  (\<open>list.remove\<close> raises when it is not there).
\<close>

fun create_nodes ::
  "config \<Rightarrow> nat \<Rightarrow> string list \<Rightarrow> nat list \<Rightarrow> store \<times> nat list \<Rightarrow> py_error + store \<times> nat list"
where
  "create_nodes cfg message_id contents [] (st, ids) = Inr (st, ids)"
| "create_nodes cfg message_id contents (response_message # rest) (st, ids) =
     (case message_nodes st message_id of
        None \<Rightarrow> Inl KeyError
      | Some a \<Rightarrow>
          (let node = \<lparr>message = \<lparr>role = Assistant, content = Text (concat contents),
                                   name = Some (str (bot_id cfg))\<rparr>,
                       too_many_images = False, replied_to = Some a\<rparr>;
               st' = store_node response_message node st
           in if response_message \<in> set ids
              then create_nodes cfg message_id contents rest (st', remove1 response_message ids)
              else Inl ValueError))"

text \<open>
  Lines 190 to 227. The loop that creates the nodes and empties
  \<open>in_progress_message_ids\<close> stands inside the \<open>if\<close> of line 190, behind the
  \<open>return\<close> of line 215: it runs only when the message asks for a picture and the
  service delivers one.
\<close>

definition after_stream ::
  "config \<Rightarrow> (string \<Rightarrow> image_answers) \<Rightarrow> discord_message \<Rightarrow> store \<Rightarrow> stream_state
     \<Rightarrow> py_error + store \<times> nat list"
where
  "after_stream cfg service msg st s =
     (if contains ''draw me'' (lower (msg_content msg))
      then (case split ''draw me'' (msg_content msg) of
              Inl e \<Rightarrow> Inl e
            | Inr pieces \<Rightarrow>
                if length pieces < 2 then Inl IndexError
                else (let prompt_text = strip (pieces ! 1);
                          answers = service prompt_text
                      in case post_result answers of
                           None \<Rightarrow> Inl ServiceError
                         | Some status_code \<Rightarrow>
                             if status_code = 200
                             then (if image_sent answers
                                   then create_nodes cfg (msg_id msg)
                                          (response_message_contents s) (response_messages s)
                                          (st, in_progress_message_ids s)
                                   else Inl ServiceError)
                             else (if apology_sent answers
                                   then Inr (st, in_progress_message_ids s)
                                   else Inl HTTPException)))
      else Inr (st, in_progress_message_ids s))"

subsection \<open>The handler\<close>

text \<open>
  The outside world of one call: the platform's \<open>fetch_message\<close>, the formatted date,
  the completion stream for a prompt with the answers during its iterations (\<open>None\<close>: the
  request raises), and the image service.
\<close>

record world =
  fetch_message :: "nat \<Rightarrow> fetch_result"
  date :: string
  completion :: "prompt_entry list \<Rightarrow> (string option \<times> observation) list option"
  image_service :: "string \<Rightarrow> image_answers"

text \<open>Line 77.\<close>

definition unwanted :: "config \<Rightarrow> discord_message \<Rightarrow> bool" where
  "unwanted cfg msg \<longleftrightarrow>
     (\<not> channel_private msg \<and> bot_id cfg \<notin> set (mentions msg))
     \<or> author_bot msg"

text \<open>
  The condition of the loop of lines 81 and 82. While it holds the handler only yields to
  other tasks; a call taken alone never leaves the loop.
\<close>

definition waits_for_reply :: "discord_message \<Rightarrow> nat list \<Rightarrow> bool" where
  "waits_for_reply msg ids =
     (case reference msg of
        None \<Rightarrow> False
      | Some r \<Rightarrow> ref_message_id r \<in> set ids)"

text \<open>
  \<open>on_message\<close> on the store and the list \<open>in_progress_message_ids\<close>. The result is
  \<open>None\<close> when the call does not return (it spins in line 82, or \<open>fuel\<close> is too small for
  the walk), an error when it raises, and the store and the list it leaves otherwise.
\<close>

definition on_message ::
  "nat \<Rightarrow> config \<Rightarrow> world \<Rightarrow> discord_message \<Rightarrow> store \<times> nat list
     \<Rightarrow> (py_error + store \<times> nat list) option"
where
  "on_message fuel cfg w msg g =
     (case g of (st, ids) \<Rightarrow>
        if unwanted cfg msg then Some (Inr (st, ids))
        else if waits_for_reply msg ids then None
        else (case chain_loop fuel cfg (fetch_message w) msg None st of
                None \<Rightarrow> None
              | Some (Inl e) \<Rightarrow> Some (Inl e)
              | Some (Inr st1) \<Rightarrow>
                  (case build_history cfg (date w) st1 (msg_id msg) of
                     Inl e \<Rightarrow> Some (Inl e)
                   | Inr (messages, user_warnings) \<Rightarrow>
                       (case completion w messages of
                          None \<Rightarrow> Some (Inl APIError)
                        | Some chunks \<Rightarrow>
                            (case stream_loop (msg_id msg) user_warnings chunks
                                    (stream_init ids) of
                               Inl e \<Rightarrow> Some (Inl e)
                             | Inr s \<Rightarrow>
                                 Some (after_stream cfg (image_service w) msg st1 s))))))"

subsection \<open>Predicates on the state of the streaming loop\<close>

definition stream_ok :: "stream_state \<Rightarrow> bool" where
  "stream_ok s \<longleftrightarrow>
     length (response_messages s) = length (response_message_contents s)
     \<and> (response_messages s \<noteq> [] \<longrightarrow> embed s \<noteq> None)
     \<and> [] \<notin> set (response_message_contents s)"

definition pending :: "stream_state \<Rightarrow> string" where
  "pending s = (case previous_content s of None \<Rightarrow> [] | Some p \<Rightarrow> p)"

definition opens :: "string \<Rightarrow> stream_state \<Rightarrow> bool" where
  "opens p s \<longleftrightarrow>
     response_messages s = []
     \<or> length (last (response_message_contents s) @ p) > EMBED_MAX_LENGTH"

definition final_edit :: "string \<Rightarrow> string \<Rightarrow> stream_state \<Rightarrow> bool" where
  "final_edit p c s \<longleftrightarrow>
     length (last (response_message_contents s) @ p @ c) > EMBED_MAX_LENGTH \<or> c = []"

definition dispatches :: "observation \<Rightarrow> string \<Rightarrow> string \<Rightarrow> stream_state \<Rightarrow> bool" where
  "dispatches ob p c s \<longleftrightarrow>
     final_edit p c s \<or> (edit_message_task s = None \<or> task_done ob) \<and> elapsed_ok ob"

definition edited :: "observation \<Rightarrow> string \<Rightarrow> string \<Rightarrow> stream_state \<Rightarrow> stream_state" where
  "edited ob p c s =
     (let e = (the (embed s))\<lparr>description := last (response_message_contents s) @ p,
                 color := (if final_edit p c s then complete else incomplete)\<rparr>
      in s\<lparr>embed := Some e,
           edit_message_task := Some (last (response_messages s)),
           events := events s
             @ (if edit_message_task s \<noteq> None \<and> \<not> task_done ob then [Wait] else [])
             @ [Edit (last (response_messages s)) e]\<rparr>)"

definition seen :: "stream_state \<Rightarrow> string" where
  "seen s = concat (response_message_contents s) @ pending s"

text \<open>The pairs (message replied to, message created) of the replies sent, in order.\<close>

fun reply_edges :: "event list \<Rightarrow> (nat \<times> nat) list" where
  "reply_edges [] = []"
| "reply_edges (Reply target new_id e # es) = (target, new_id) # reply_edges es"
| "reply_edges (Wait # es) = reply_edges es"
| "reply_edges (Edit b e # es) = reply_edges es"

text \<open>What the platform was asked to show: the block and the embed of every reply and edit.\<close>

fun rendering :: "event list \<Rightarrow> (nat \<times> Embed) list" where
  "rendering [] = []"
| "rendering (Reply target new_id e # es) = (new_id, e) # rendering es"
| "rendering (Wait # es) = rendering es"
| "rendering (Edit b e # es) = (b, e) # rendering es"

text \<open>All texts held and shown so far fit the cap.\<close>

definition within_cap :: "stream_state \<Rightarrow> bool" where
  "within_cap s \<longleftrightarrow>
     (\<forall>c \<in> set (response_message_contents s). length c \<le> EMBED_MAX_LENGTH)
     \<and> (\<forall>r \<in> set (rendering (events s)). length (description (snd r)) \<le> EMBED_MAX_LENGTH)"








subsection \<open>A configuration and a world to run the handler in\<close>

text \<open>
  A local model without vision and a history of twenty messages; the bot is user 9. The
  stream answers \<open>Hi\<close> and ends; the image service is down.
\<close>

definition example_config :: config where
  "example_config =
     \<lparr>LLM = ''local-model'', MAX_IMAGES_env = 0, MAX_MESSAGES = 20,
      CUSTOM_SYSTEM_PROMPT = ''Be brief.'', bot_id = 9, bot_mention = ''<@9>''\<rparr>"

definition example_world :: world where
  "example_world =
     \<lparr>fetch_message = (\<lambda>i. NotFound), date = ''November 03 2026'',
      completion = (\<lambda>p. Some [(Some ''Hi'', \<lparr>reply_result = Some 100, task_done = True, elapsed_ok = True\<rparr>),
                               (None, \<lparr>reply_result = Some 100, task_done = True, elapsed_ok = True\<rparr>)]),
      image_service = (\<lambda>p. \<lparr>post_result = None, image_sent = False, apology_sent = False\<rparr>)\<rparr>"

text \<open>The node that lines 219 to 226 construct for a block of the reply.\<close>

definition reply_node :: "config \<Rightarrow> string list \<Rightarrow> nat \<Rightarrow> MessageNode" where
  "reply_node cfg contents a =
     \<lparr>message = \<lparr>role = Assistant, content = Text (concat contents),
                 name = Some (str (bot_id cfg))\<rparr>,
      too_many_images = False, replied_to = Some a\<rparr>"

text \<open>
  Three nodes in a store: \<open>C\<close> (message 3) replies to \<open>B\<close> (message 2), which replies to
  \<open>A\<close> (message 1).
\<close>

definition example_entry :: "string \<Rightarrow> prompt_entry" where
  "example_entry t = \<lparr>role = User, content = Parts [text_part t], name = Some (str 7)\<rparr>"

definition example_store :: store where
  "example_store =
     \<lparr>message_nodes = [3 \<mapsto> 0, 2 \<mapsto> 1, 1 \<mapsto> 2],
      objects = [\<lparr>message = example_entry ''C'', too_many_images = False, replied_to = Some 1\<rparr>,
                 \<lparr>message = example_entry ''B'', too_many_images = False, replied_to = Some 2\<rparr>,
                 \<lparr>message = example_entry ''A'', too_many_images = False, replied_to = None\<rparr>]\<rparr>"

text \<open>A model with vision and a cap of one image, and a message with two pictures.\<close>

definition vision_config :: config where
  "vision_config =
     \<lparr>LLM = ''local-vision'', MAX_IMAGES_env = 1, MAX_MESSAGES = 20,
      CUSTOM_SYSTEM_PROMPT = ''Be brief.'', bot_id = 9, bot_mention = ''<@9>''\<rparr>"

definition two_pictures :: discord_message where
  "two_pictures =
     Message 1 7 False ''look''
       [] [\<lparr>url = ''u1'', content_type = ''image/png''\<rparr>,
           \<lparr>url = ''u2'', content_type = ''image/png''\<rparr>]
       None True []"

text \<open>
  Message 3 replies to message 2, which replies to message 1; the platform delivers
  message 2 and has lost message 1.
\<close>

definition second_message :: discord_message where
  "second_message = Message 2 8 False ''B'' [] [] (Some (Reference 1 None)) True []"

definition third_message :: discord_message where
  "third_message = Message 3 7 False ''C'' [] [] (Some (Reference 2 None)) True []"

definition lossy_fetch :: "nat \<Rightarrow> fetch_result" where
  "lossy_fetch i = (if i = 2 then Fetched second_message else NotFound)"

subsection \<open>Chains of nodes and walks of messages\<close>

text \<open>
  \<open>is_chain objs current as\<close>: following \<open>replied_to\<close> from \<open>current\<close> passes exactly the
  objects \<open>as\<close> and then ends. This is a reply chain of length \<open>length as\<close>.
\<close>

fun is_chain :: "MessageNode list \<Rightarrow> nat option \<Rightarrow> nat list \<Rightarrow> bool" where
  "is_chain objs current [] = (current = None)"
| "is_chain objs current (a # as) =
     (current = Some a \<and> a < length objs \<and> is_chain objs (replied_to (objs ! a)) as)"

text \<open>The warnings that a walk over the first \<open>k\<close> nodes of a chain collects.\<close>

definition chain_warnings :: "MessageNode list \<Rightarrow> nat \<Rightarrow> nat list \<Rightarrow> warning set" where
  "chain_warnings objs k as =
     (if \<exists>a \<in> set (take k as). too_many_images (objs ! a) then {MAX_IMAGE_WARNING} else {})
     \<union> (if 1 \<le> k \<and> k < length as then {MAX_MESSAGE_WARNING} else {})"

text \<open>The image references in a content.\<close>

fun is_image :: "content_part \<Rightarrow> bool" where
  "is_image (image_url u) = True"
| "is_image (text_part t) = False"

fun image_parts :: "content \<Rightarrow> content_part list" where
  "image_parts (Parts ps) = filter is_image ps"
| "image_parts (Text t) = []"

text \<open>
  The node that \<open>visit\<close> leaves for a message whose text can be read, before anything
  links it.
\<close>

definition node_of :: "config \<Rightarrow> discord_message \<Rightarrow> MessageNode" where
  "node_of cfg m =
     \<lparr>message =
        \<lparr>role = (if author_id m = bot_id cfg then Assistant else User),
         content = current_message_content cfg
                     (case current_message_text cfg m of Inl e \<Rightarrow> [] | Inr t \<Rightarrow> t)
                     (current_message_images m),
         name = Some (str (author_id m))\<rparr>,
      too_many_images = (int (length (current_message_images m)) > MAX_IMAGES cfg),
      replied_to = None\<rparr>"

text \<open>Nodes created one after the other from position \<open>n\<close>, each referring to the next.\<close>

fun linked :: "nat \<Rightarrow> MessageNode list \<Rightarrow> MessageNode list" where
  "linked n [] = []"
| "linked n [x] = [x]"
| "linked n (x # y # ys) = x\<lparr>replied_to := Some (Suc n)\<rparr> # linked (Suc n) (y # ys)"

text \<open>
  \<open>ascent cfg fetch known m ms\<close>: a walk that is at the message \<open>m\<close>, with the identifiers
  \<open>known\<close> in \<open>message_nodes\<close>, goes on through the messages \<open>ms\<close>, each one the message
  that the one before replies to (sent along or fetched, and carrying the identifier asked
  for), and then asks the platform for a message that it does not get. Every message on
  the way has a text to read, and an identifier other than 0.
\<close>

fun ascent ::
  "config \<Rightarrow> (nat \<Rightarrow> fetch_result) \<Rightarrow> nat set \<Rightarrow> discord_message \<Rightarrow> discord_message list \<Rightarrow> bool"
where
  "ascent cfg fetch known m [] =
     (case current_message_text cfg m of
        Inl e \<Rightarrow> False
      | Inr t \<Rightarrow>
          (case reference m of
             None \<Rightarrow> False
           | Some r \<Rightarrow>
               ref_message_id r \<notin> insert (msg_id m) known
               \<and> resolved r = None
               \<and> (fetch (ref_message_id r) = NotFound \<or> fetch (ref_message_id r) = HTTPError)))"
| "ascent cfg fetch known m (m' # ms) =
     (case current_message_text cfg m of
        Inl e \<Rightarrow> False
      | Inr t \<Rightarrow>
          (case reference m of
             None \<Rightarrow> False
           | Some r \<Rightarrow>
               msg_id m \<noteq> 0
               \<and> ref_message_id r \<notin> insert (msg_id m) known
               \<and> msg_id m' = ref_message_id r
               \<and> (case resolved r of
                     Some x \<Rightarrow> x = m'
                   | None \<Rightarrow> fetch (ref_message_id r) = Fetched m')
               \<and> ascent cfg fetch (insert (msg_id m) known) m' ms))"

text \<open>
  Every reference in the store leads to an object: the positions kept in \<open>message_nodes\<close>
  and in \<open>replied_to\<close> are below the number of objects.
\<close>

definition store_ok :: "store \<Rightarrow> bool" where
  "store_ok st \<longleftrightarrow>
     (\<forall>k a. message_nodes st k = Some a \<longrightarrow> a < length (objects st))
     \<and> (\<forall>x \<in> set (objects st). \<forall>b. replied_to x = Some b \<longrightarrow> b < length (objects st))"

section \<open>Properties of the streaming loop\<close>

lemma stream_ok_init: "stream_ok (stream_init ids)"
  by (simp add: stream_ok_def stream_init_def)

lemma last_content_Inr:
  "response_message_contents s \<noteq> [] \<Longrightarrow> last_content s = Inr (last (response_message_contents s))"
  by (cases "response_message_contents s") (simp_all add: last_content_def)

lemma needs_new_message_Inr:
  assumes "stream_ok s"
  shows "needs_new_message p s =
     Inr (response_messages s = []
          \<or> length (last (response_message_contents s) @ p) > EMBED_MAX_LENGTH)"
proof (cases "response_messages s = []")
  case True
  then show ?thesis by (simp add: needs_new_message_def)
next
  case False
  with assms have "response_message_contents s \<noteq> []"
    by (auto simp: stream_ok_def)
  with False show ?thesis
    by (simp add: needs_new_message_def last_content_Inr)
qed

lemma append_previous_Inr:
  "response_message_contents s \<noteq> [] \<Longrightarrow>
   append_previous p s =
     Inr (s\<lparr>response_message_contents :=
              butlast (response_message_contents s) @ [last (response_message_contents s) @ p]\<rparr>)"
  by (cases "response_message_contents s") (simp_all add: append_previous_def)

lemma on_chunk_skip:
  assumes "previous_content s = None \<or> previous_content s = Some []"
  shows "on_chunk m w s x = Inr (s\<lparr>previous_content := Some (fragment x)\<rparr>)"
  using assms by (auto simp: on_chunk_def fragment_def Let_def)

lemma on_chunk_open:
  assumes ok: "stream_ok s" and p: "previous_content s = Some p" "p \<noteq> []"
    and o: "opens p s"
  shows "on_chunk m w s x =
     (case reply_result (snd x) of
        None \<Rightarrow> Inl HTTPException
      | Some b \<Rightarrow>
          (let e = \<lparr>description = p,
                    color = (if fragment x = [] then complete else incomplete),
                    embed_fields = sorted_warnings w\<rparr>
           in Inr (s\<lparr>response_messages := response_messages s @ [b],
                  response_message_contents := response_message_contents s @ [p],
                  previous_content := Some (fragment x),
                  embed := Some e,
                  in_progress_message_ids := in_progress_message_ids s @ [b],
                  events := events s
                    @ [Reply (if response_messages s = [] then m else last (response_messages s)) b e]\<rparr>)))"
proof -
  have n: "needs_new_message p s = Inr True"
    using needs_new_message_Inr[OF ok, of p] o by (simp add: opens_def)
  show ?thesis
  proof (cases "reply_result (snd x)")
    case None
    then show ?thesis
      by (simp add: on_chunk_def p n Let_def open_segment_def)
  next
    case (Some b)
    define e where "e = \<lparr>description = p,
                    color = (if fragment x = [] then complete else incomplete),
                    embed_fields = sorted_warnings w\<rparr>"
    define s1 where "s1 = s\<lparr>response_messages := response_messages s @ [b],
                    response_message_contents := response_message_contents s @ [[]],
                    embed := Some e,
                    in_progress_message_ids := in_progress_message_ids s @ [b],
                    events := events s
                      @ [Reply (if response_messages s = [] then m else last (response_messages s)) b e]\<rparr>"
    define s2 where "s2 = s1\<lparr>response_message_contents := response_message_contents s @ [p]\<rparr>"
    have o1: "open_segment m w (snd x) p (fragment x) s = Inr s1"
      by (simp add: open_segment_def Some s1_def e_def Let_def)
    have a1: "append_previous p s1 = Inr s2"
      by (simp add: append_previous_Inr s1_def s2_def)
    have l2: "last_content s2 = Inr p"
      by (simp add: last_content_Inr s2_def)
    have "on_chunk m w s x = Inr (s2\<lparr>previous_content := Some (fragment x)\<rparr>)"
      using o1 a1 l2 by (simp add: on_chunk_def p n Let_def fragment_def)
    then show ?thesis
      by (simp add: Some s2_def s1_def e_def Let_def)
  qed
qed

lemma on_chunk_extend:
  assumes ok: "stream_ok s" and p: "previous_content s = Some p" "p \<noteq> []"
    and o: "\<not> opens p s"
  shows "on_chunk m w s x =
     Inr ((if dispatches (snd x) p (fragment x) s then edited (snd x) p (fragment x) s else s)
          \<lparr>response_message_contents :=
              butlast (response_message_contents s) @ [last (response_message_contents s) @ p],
           previous_content := Some (fragment x)\<rparr>)"
proof -
  from o have rne: "response_messages s \<noteq> []"
    by (simp add: opens_def)
  with ok have cne: "response_message_contents s \<noteq> []"
    by (auto simp: stream_ok_def)
  have "last (response_message_contents s) \<in> set (response_message_contents s)"
    using cne by (rule last_in_set)
  with ok have lne: "last (response_message_contents s) \<noteq> []"
    by (metis stream_ok_def)
  from ok rne obtain e0 where e0: "embed s = Some e0"
    by (auto simp: stream_ok_def)
  from rne obtain r rs where r: "response_messages s = r # rs"
    by (cases "response_messages s") auto
  have n: "needs_new_message p s = Inr False"
    using needs_new_message_Inr[OF ok, of p] o by (simp add: opens_def)
  define s2 where "s2 = s\<lparr>response_message_contents :=
              butlast (response_message_contents s) @ [last (response_message_contents s) @ p]\<rparr>"
  have a: "append_previous p s = Inr s2"
    by (simp add: append_previous_Inr[OF cne] s2_def)
  have l2: "last_content s2 = Inr (last (response_message_contents s) @ p)"
    by (simp add: last_content_Inr s2_def)
  have s2: "embed s2 = Some e0" "response_messages s2 = r # rs"
    "edit_message_task s2 = edit_message_task s" "events s2 = events s"
    by (simp_all add: s2_def e0 r)
  have "flush (snd x) (fragment x) s2 =
      (if dispatches (snd x) p (fragment x) s
       then Inr (s2\<lparr>embed := Some (e0\<lparr>description := last (response_message_contents s) @ p,
                 color := (if final_edit p (fragment x) s then complete else incomplete)\<rparr>),
           edit_message_task := Some (last (r # rs)),
           events := events s
             @ (if edit_message_task s \<noteq> None \<and> \<not> task_done (snd x) then [Wait] else [])
             @ [Edit (last (r # rs)) (e0\<lparr>description := last (response_message_contents s) @ p,
                 color := (if final_edit p (fragment x) s then complete else incomplete)\<rparr>)]\<rparr>)
       else Inr s2)"
    unfolding flush_def l2 by (auto simp: Let_def dispatches_def final_edit_def s2)
  then have f: "flush (snd x) (fragment x) s2 =
      Inr ((if dispatches (snd x) p (fragment x) s then edited (snd x) p (fragment x) s else s)
          \<lparr>response_message_contents :=
              butlast (response_message_contents s) @ [last (response_message_contents s) @ p]\<rparr>)"
    by (simp add: edited_def s2_def e0 r Let_def)
  show ?thesis
    using a l2 lne f n by (simp add: on_chunk_def p Let_def fragment_def)
qed

lemma on_chunk_elim [consumes 2, case_names skip opened extended]:
  assumes ok: "stream_ok s" and step: "on_chunk m w s x = Inr s'"
  obtains
    (skip) "pending s = []" "s' = s\<lparr>previous_content := Some (fragment x)\<rparr>"
  | (opened) p b where "previous_content s = Some p" "p \<noteq> []" "opens p s"
      "reply_result (snd x) = Some b"
      "s' = s\<lparr>response_messages := response_messages s @ [b],
                  response_message_contents := response_message_contents s @ [p],
                  previous_content := Some (fragment x),
                  embed := Some \<lparr>description = p,
                    color = (if fragment x = [] then complete else incomplete),
                    embed_fields = sorted_warnings w\<rparr>,
                  in_progress_message_ids := in_progress_message_ids s @ [b],
                  events := events s
                    @ [Reply (if response_messages s = [] then m else last (response_messages s)) b
                        \<lparr>description = p,
                         color = (if fragment x = [] then complete else incomplete),
                         embed_fields = sorted_warnings w\<rparr>]\<rparr>"
  | (extended) p where "previous_content s = Some p" "p \<noteq> []" "\<not> opens p s"
      "s' = (if dispatches (snd x) p (fragment x) s then edited (snd x) p (fragment x) s else s)
          \<lparr>response_message_contents :=
              butlast (response_message_contents s) @ [last (response_message_contents s) @ p],
           previous_content := Some (fragment x)\<rparr>"
proof (cases "previous_content s")
  case None
  then have "pending s = []" by (simp add: pending_def)
  moreover have "s' = s\<lparr>previous_content := Some (fragment x)\<rparr>"
    using step None by (simp add: on_chunk_skip)
  ultimately show ?thesis by (rule skip)
next
  case (Some p)
  show ?thesis
  proof (cases "p = []")
    case True
    then have "pending s = []" using Some by (simp add: pending_def)
    moreover have "s' = s\<lparr>previous_content := Some (fragment x)\<rparr>"
      using step Some True by (simp add: on_chunk_skip)
    ultimately show ?thesis by (rule skip)
  next
    case False
    show ?thesis
    proof (cases "opens p s")
      case True
      from step obtain b where b: "reply_result (snd x) = Some b"
        by (cases "reply_result (snd x)") (simp_all add: on_chunk_open[OF ok Some False True])
      show ?thesis
        using step by (intro opened[OF Some False True b])
          (simp add: on_chunk_open[OF ok Some False True] b Let_def)
    next
      case no: False
      show ?thesis
        using step by (intro extended[OF Some False no])
          (simp add: on_chunk_extend[OF ok Some False no])
    qed
  qed
qed

lemma on_chunk_stream_ok:
  assumes "stream_ok s" "on_chunk m w s x = Inr s'"
  shows "stream_ok s'"
  using assms
proof (cases rule: on_chunk_elim)
  case skip
  with assms(1) show ?thesis by (simp add: stream_ok_def)
next
  case (opened p b)
  with assms(1) show ?thesis by (simp add: stream_ok_def)
next
  case (extended p)
  then have rne: "response_messages s \<noteq> []" by (simp add: opens_def)
  with assms(1) have cne: "response_message_contents s \<noteq> []"
    by (auto simp: stream_ok_def)
  have sub: "set (butlast (response_message_contents s)) \<subseteq> set (response_message_contents s)"
    by (auto dest: in_set_butlastD)
  show ?thesis
    using assms(1) extended rne cne sub
    by (auto simp: stream_ok_def edited_def Let_def)
qed

lemma on_chunk_previous:
  assumes "stream_ok s" "on_chunk m w s x = Inr s'"
  shows "previous_content s' = Some (fragment x)"
  using assms by (cases rule: on_chunk_elim) (simp_all add: edited_def Let_def)

lemma on_chunk_concat:
  assumes "stream_ok s" "on_chunk m w s x = Inr s'"
  shows "concat (response_message_contents s') = concat (response_message_contents s) @ pending s"
  using assms
proof (cases rule: on_chunk_elim)
  case skip
  then show ?thesis by simp
next
  case (opened p b)
  then show ?thesis by (simp add: pending_def)
next
  case (extended p)
  then have rne: "response_messages s \<noteq> []" by (simp add: opens_def)
  with assms(1) have cne: "response_message_contents s \<noteq> []"
    by (auto simp: stream_ok_def)
  have "concat (butlast (response_message_contents s) @ [last (response_message_contents s) @ p])
      = concat (butlast (response_message_contents s) @ [last (response_message_contents s)]) @ p"
    by simp
  also have "\<dots> = concat (response_message_contents s) @ p"
    using cne by simp
  finally show ?thesis
    using extended by (simp add: pending_def edited_def Let_def)
qed

lemma on_chunk_total:
  assumes "stream_ok s" "reply_result (snd x) \<noteq> None"
  shows "\<exists>s'. on_chunk m w s x = Inr s'"
proof (cases "pending s = []")
  case True
  then have "previous_content s = None \<or> previous_content s = Some []"
    by (auto simp: pending_def split: option.splits)
  then show ?thesis by (simp add: on_chunk_skip)
next
  case False
  then obtain p where p: "previous_content s = Some p" "p \<noteq> []"
    by (auto simp: pending_def split: option.splits)
  show ?thesis
  proof (cases "opens p s")
    case True
    with assms p show ?thesis
      by (auto simp: on_chunk_open Let_def)
  next
    case False
    with assms p show ?thesis
      by (simp add: on_chunk_extend)
  qed
qed

lemma stream_loop_stream_ok:
  "stream_ok s \<Longrightarrow> stream_loop m w xs s = Inr s' \<Longrightarrow> stream_ok s'"
proof (induction xs arbitrary: s)
  case Nil
  then show ?case by simp
next
  case (Cons x xs)
  then show ?case
    by (auto split: sum.splits dest: on_chunk_stream_ok)
qed

lemma stream_loop_append:
  "stream_loop m w (xs @ ys) s =
     (case stream_loop m w xs s of Inl e \<Rightarrow> Inl e | Inr s' \<Rightarrow> stream_loop m w ys s')"
  by (induction xs arbitrary: s) (auto split: sum.splits)

lemma on_chunk_Inl:
  assumes "stream_ok s" "on_chunk m w s x = Inl e"
  shows "e = HTTPException \<and> reply_result (snd x) = None"
proof (cases "reply_result (snd x)")
  case None
  have "\<not> (previous_content s = None \<or> previous_content s = Some [])"
  proof
    assume "previous_content s = None \<or> previous_content s = Some []"
    then have "on_chunk m w s x = Inr (s\<lparr>previous_content := Some (fragment x)\<rparr>)"
      by (rule on_chunk_skip)
    with assms(2) show False by simp
  qed
  then obtain p where p: "previous_content s = Some p" "p \<noteq> []"
    by (cases "previous_content s") auto
  have "opens p s"
  proof (rule ccontr)
    assume "\<not> opens p s"
    with assms p show False by (simp add: on_chunk_extend)
  qed
  with assms p None show ?thesis
    by (simp add: on_chunk_open)
next
  case (Some b)
  then have "\<exists>s'. on_chunk m w s x = Inr s'"
    using assms(1) by (intro on_chunk_total) simp_all
  with assms show ?thesis by simp
qed

lemma stream_loop_Inl:
  "stream_ok s \<Longrightarrow> stream_loop m w xs s = Inl e \<Longrightarrow>
   e = HTTPException \<and> (\<exists>x\<in>set xs. reply_result (snd x) = None)"
proof (induction xs arbitrary: s)
  case Nil
  then show ?case by simp
next
  case (Cons x xs)
  show ?case
  proof (cases "on_chunk m w s x")
    case (Inl e')
    with Cons.prems on_chunk_Inl[OF Cons.prems(1) Inl] show ?thesis by simp
  next
    case (Inr s')
    with Cons.prems have "stream_loop m w xs s' = Inl e" by simp
    moreover have "stream_ok s'" using Cons.prems(1) Inr by (rule on_chunk_stream_ok)
    ultimately show ?thesis using Cons.IH by auto
  qed
qed

lemma on_chunk_seen:
  assumes "stream_ok s" "on_chunk m w s x = Inr s'"
  shows "seen s' = seen s @ fragment x"
  using on_chunk_concat[OF assms] on_chunk_previous[OF assms]
  by (simp add: seen_def pending_def)

lemma stream_loop_seen:
  "stream_ok s \<Longrightarrow> stream_loop m w xs s = Inr s' \<Longrightarrow>
   seen s' = seen s @ concat (map fragment xs)"
proof (induction xs arbitrary: s)
  case Nil
  then show ?case by simp
next
  case (Cons x xs)
  from Cons.prems obtain s1 where s1: "on_chunk m w s x = Inr s1"
    and rest: "stream_loop m w xs s1 = Inr s'"
    by (auto split: sum.splits)
  have "stream_ok s1" using Cons.prems(1) s1 by (rule on_chunk_stream_ok)
  then have "seen s' = seen s1 @ concat (map fragment xs)"
    using rest by (rule Cons.IH)
  then show ?case
    using on_chunk_seen[OF Cons.prems(1) s1] by simp
qed

lemma stream_loop_pending_last:
  assumes "stream_ok s" "stream_loop m w (ys @ [z]) s = Inr s'"
  shows "pending s' = fragment z"
proof -
  from assms(2) obtain s1 where s1: "stream_loop m w ys s = Inr s1"
    and z: "on_chunk m w s1 z = Inr s'"
    by (auto simp: stream_loop_append split: sum.splits)
  have "stream_ok s1" using assms(1) s1 by (rule stream_loop_stream_ok)
  then show ?thesis
    using on_chunk_previous[OF _ z] by (simp add: pending_def)
qed

lemma hello_world:
  assumes "reply_result o2 = Some b"
  shows "\<exists>s. stream_loop m w
            [(Some ''Hel'', o1), (Some ''lo '', o2), (Some ''world'', o3), (Some [], o4)]
            (stream_init ids) = Inr s
         \<and> response_messages s = [b]
         \<and> response_message_contents s = [''Hello world'']
         \<and> last (events s) =
             Edit b \<lparr>description = ''Hello world'', color = complete,
                     embed_fields = sorted_warnings w\<rparr>"
  using assms
  by (simp add: stream_init_def on_chunk_def needs_new_message_def open_segment_def
      append_previous_def last_content_def flush_def EMBED_MAX_LENGTH_def Let_def)

lemma reply_edges_append: "reply_edges (xs @ ys) = reply_edges xs @ reply_edges ys"
  by (induction xs rule: reply_edges.induct) simp_all

lemma zip_chain_snoc:
  "zip (m # (rs @ [b])) (rs @ [b]) = zip (m # rs) rs @ [(last (m # rs), b)]"
  by (induction rs arbitrary: m) simp_all

lemma on_chunk_reply_edges:
  assumes ok: "stream_ok s" and step: "on_chunk m w s x = Inr s'"
    and inv: "reply_edges (events s) = zip (m # response_messages s) (response_messages s)"
  shows "reply_edges (events s') = zip (m # response_messages s') (response_messages s')"
  using ok step
proof (cases rule: on_chunk_elim)
  case skip
  with inv show ?thesis by simp
next
  case (opened p b)
  have "(if response_messages s = [] then m else last (response_messages s))
      = last (m # response_messages s)"
    by simp
  with opened inv show ?thesis
    by (simp add: reply_edges_append zip_chain_snoc del: last.simps)
next
  case (extended p)
  with inv show ?thesis
    by (simp add: edited_def Let_def reply_edges_append)
qed

lemma stream_loop_reply_edges:
  "stream_ok s \<Longrightarrow> stream_loop m w xs s = Inr s' \<Longrightarrow>
   reply_edges (events s) = zip (m # response_messages s) (response_messages s) \<Longrightarrow>
   reply_edges (events s') = zip (m # response_messages s') (response_messages s')"
proof (induction xs arbitrary: s)
  case Nil
  then show ?case by simp
next
  case (Cons x xs)
  from Cons.prems obtain s1 where s1: "on_chunk m w s x = Inr s1"
    and rest: "stream_loop m w xs s1 = Inr s'"
    by (auto split: sum.splits)
  have "stream_ok s1" using Cons.prems(1) s1 by (rule on_chunk_stream_ok)
  moreover have "reply_edges (events s1) = zip (m # response_messages s1) (response_messages s1)"
    using Cons.prems(1) s1 Cons.prems(3) by (rule on_chunk_reply_edges)
  ultimately show ?case using rest Cons.IH by blast
qed

text \<open>
  C10. The first block of a response is sent as a reply to the triggering message and
  every later block as a reply to the block before it: the replies sent are the pairs of
  neighbours in the list that starts with the triggering message and continues with
  \<open>response_messages\<close>.
\<close>

theorem replies_form_chain:
  assumes "stream_loop message_id w xs (stream_init ids) = Inr s"
  shows "reply_edges (events s)
       = zip (message_id # response_messages s) (response_messages s)"
proof -
  have "reply_edges (events (stream_init ids))
      = zip (message_id # response_messages (stream_init ids))
            (response_messages (stream_init ids))"
    by (simp add: stream_init_def)
  with stream_ok_init assms show ?thesis
    by (rule stream_loop_reply_edges)
qed

text \<open>
  C2. When the stream ends with an empty fragment, the loop either ends with the texts of
  the segments concatenating to the fragments before the last one, or it was stopped by a
  reply that raised. The fragments \<open>Hel\<close>, \<open>lo \<close>, \<open>world\<close> and the empty one give one
  segment with the text \<open>Hello world\<close>, and the last thing sent for it is the edit with
  that text in the colour of \<open>complete\<close>, whatever the clock and the edit tasks do.
\<close>

theorem stream_text_is_fragments:
  assumes "fragment z = []"
  shows "(case stream_loop message_id w (ys @ [z]) (stream_init ids) of
            Inr s \<Rightarrow> concat (response_message_contents s) = concat (map fragment ys)
          | Inl e \<Rightarrow> e = HTTPException \<and> (\<exists>x\<in>set (ys @ [z]). reply_result (snd x) = None))
       \<and> (\<forall>o1 o2 o3 o4 b. reply_result o2 = Some b \<longrightarrow>
            (\<exists>s. stream_loop message_id w
                    [(Some ''Hel'', o1), (Some ''lo '', o2), (Some ''world'', o3), (Some [], o4)]
                    (stream_init ids) = Inr s
                 \<and> response_messages s = [b]
                 \<and> response_message_contents s = [''Hello world'']
                 \<and> last (events s) =
                     Edit b \<lparr>description = ''Hello world'', color = complete,
                             embed_fields = sorted_warnings w\<rparr>))"
proof (intro conjI allI impI)
  show "case stream_loop message_id w (ys @ [z]) (stream_init ids) of
            Inr s \<Rightarrow> concat (response_message_contents s) = concat (map fragment ys)
          | Inl e \<Rightarrow> e = HTTPException \<and> (\<exists>x\<in>set (ys @ [z]). reply_result (snd x) = None)"
  proof (cases "stream_loop message_id w (ys @ [z]) (stream_init ids)")
    case (Inl e)
    with stream_loop_Inl[OF stream_ok_init Inl] show ?thesis by simp
  next
    case (Inr s)
    have "seen s = seen (stream_init ids) @ concat (map fragment (ys @ [z]))"
      using stream_ok_init Inr by (rule stream_loop_seen)
    moreover have "pending s = fragment z"
      using stream_ok_init Inr by (rule stream_loop_pending_last)
    ultimately have "concat (response_message_contents s) = concat (map fragment ys)"
      using assms by (simp add: seen_def pending_def stream_init_def)
    with Inr show ?thesis by simp
  qed
next
  fix o1 o2 o3 o4 :: observation and b :: nat
  assume "reply_result o2 = Some b"
  then show "\<exists>s. stream_loop message_id w
                    [(Some ''Hel'', o1), (Some ''lo '', o2), (Some ''world'', o3), (Some [], o4)]
                    (stream_init ids) = Inr s
                 \<and> response_messages s = [b]
                 \<and> response_message_contents s = [''Hello world'']
                 \<and> last (events s) =
                     Edit b \<lparr>description = ''Hello world'', color = complete,
                             embed_fields = sorted_warnings w\<rparr>"
    by (rule hello_world)
qed

theorem stream_text_is_fragments_witness:
  "fragment (Some [], \<lparr>reply_result = Some 100, task_done = True, elapsed_ok = False\<rparr>) = []
   \<and> (\<exists>s. stream_loop 1 {}
             [(Some ''Hel'', \<lparr>reply_result = Some 100, task_done = True, elapsed_ok = False\<rparr>),
              (Some ''lo '', \<lparr>reply_result = Some 100, task_done = True, elapsed_ok = False\<rparr>),
              (Some ''world'', \<lparr>reply_result = Some 100, task_done = True, elapsed_ok = False\<rparr>),
              (Some [], \<lparr>reply_result = Some 100, task_done = True, elapsed_ok = False\<rparr>)]
             (stream_init []) = Inr s
          \<and> response_messages s = [100]
          \<and> response_message_contents s = [''Hello world'']
          \<and> concat (response_message_contents s) = ''Hello world'')"
proof -
  define ob where "ob = \<lparr>reply_result = Some (100::nat), task_done = True, elapsed_ok = False\<rparr>"
  have h: "fragment (Some [], ob) = []"
    by (simp add: fragment_def)
  have r: "reply_result ob = Some 100"
    by (simp add: ob_def)
  note t = stream_text_is_fragments[OF h, where message_id = 1 and w = "{}"
      and ys = "[(Some ''Hel'', ob), (Some ''lo '', ob), (Some ''world'', ob)]" and ids = "[]"]
  from t r obtain s where s: "stream_loop 1 {}
      [(Some ''Hel'', ob), (Some ''lo '', ob), (Some ''world'', ob), (Some [], ob)]
      (stream_init []) = Inr s" "response_messages s = [100]"
      "response_message_contents s = [''Hello world'']"
    by blast
  from t s(1) have "concat (response_message_contents s) = ''Hello world''"
    by (simp add: fragment_def)
  with s h show ?thesis
    unfolding ob_def by blast
qed

theorem replies_form_chain_witness:
  "stream_loop 1 {}
     [(Some ''Hi'', \<lparr>reply_result = Some 100, task_done = True, elapsed_ok = True\<rparr>),
      (Some [], \<lparr>reply_result = Some 100, task_done = True, elapsed_ok = True\<rparr>)]
     (stream_init []) =
   Inr \<lparr>response_messages = [100], response_message_contents = [''Hi''],
        previous_content = Some [], edit_message_task = None,
        embed = Some \<lparr>description = ''Hi'', color = complete, embed_fields = []\<rparr>,
        in_progress_message_ids = [100],
        events = [Reply 1 100 \<lparr>description = ''Hi'', color = complete, embed_fields = []\<rparr>]\<rparr>
   \<and> reply_edges [Reply 1 100 \<lparr>description = ''Hi'', color = complete, embed_fields = []\<rparr>]
       = zip [1, 100] [100]"
proof -
  have run: "stream_loop 1 {}
     [(Some ''Hi'', \<lparr>reply_result = Some 100, task_done = True, elapsed_ok = True\<rparr>),
      (Some [], \<lparr>reply_result = Some 100, task_done = True, elapsed_ok = True\<rparr>)]
     (stream_init []) =
   Inr \<lparr>response_messages = [100], response_message_contents = [''Hi''],
        previous_content = Some [], edit_message_task = None,
        embed = Some \<lparr>description = ''Hi'', color = complete, embed_fields = []\<rparr>,
        in_progress_message_ids = [100],
        events = [Reply 1 100 \<lparr>description = ''Hi'', color = complete, embed_fields = []\<rparr>]\<rparr>"
    by (simp add: stream_init_def on_chunk_def needs_new_message_def open_segment_def
        append_previous_def last_content_def flush_def sorted_warnings_def Let_def)
  from replies_form_chain[OF run] run show ?thesis by simp
qed

lemma rendering_append: "rendering (xs @ ys) = rendering xs @ rendering ys"
  by (induction xs rule: rendering.induct) simp_all

lemma on_chunk_within_cap:
  assumes ok: "stream_ok s" and step: "on_chunk m w s x = Inr s'"
    and cap: "within_cap s" and p: "length (pending s) \<le> EMBED_MAX_LENGTH"
  shows "within_cap s'"
  using ok step
proof (cases rule: on_chunk_elim)
  case skip
  with cap show ?thesis by (simp add: within_cap_def)
next
  case (opened p b)
  with cap p show ?thesis
    by (auto simp: within_cap_def pending_def rendering_append)
next
  case (extended q)
  then have rne: "response_messages s \<noteq> []" by (simp add: opens_def)
  from extended have fit: "length (last (response_message_contents s) @ q) \<le> EMBED_MAX_LENGTH"
    by (simp add: opens_def)
  have old: "\<forall>c \<in> set (butlast (response_message_contents s)). length c \<le> EMBED_MAX_LENGTH"
    using cap by (auto simp: within_cap_def dest: in_set_butlastD)
  show ?thesis
    using cap extended fit old
    by (auto simp: within_cap_def edited_def Let_def rendering_append)
qed

lemma stream_loop_within_cap:
  "stream_ok s \<Longrightarrow> within_cap s \<Longrightarrow> length (pending s) \<le> EMBED_MAX_LENGTH \<Longrightarrow>
   \<forall>x \<in> set xs. length (fragment x) \<le> EMBED_MAX_LENGTH \<Longrightarrow>
   stream_loop m w xs s = Inr s' \<Longrightarrow> within_cap s'"
proof (induction xs arbitrary: s)
  case Nil
  then show ?case by simp
next
  case (Cons x xs)
  from Cons.prems obtain s1 where s1: "on_chunk m w s x = Inr s1"
    and rest: "stream_loop m w xs s1 = Inr s'"
    by (auto split: sum.splits)
  have ok1: "stream_ok s1" using Cons.prems(1) s1 by (rule on_chunk_stream_ok)
  have cap1: "within_cap s1"
    using Cons.prems(1) s1 Cons.prems(2,3) by (rule on_chunk_within_cap)
  have "pending s1 = fragment x"
    using on_chunk_previous[OF Cons.prems(1) s1] by (simp add: pending_def)
  with Cons.prems(4) have p1: "length (pending s1) \<le> EMBED_MAX_LENGTH" by simp
  from Cons.prems(4) have "\<forall>x \<in> set xs. length (fragment x) \<le> EMBED_MAX_LENGTH" by simp
  with ok1 cap1 p1 show ?case using rest by (rule Cons.IH)
qed

text \<open>
  C3, as the code has it. A fragment is never split, so the cap holds for the segments as
  long as no single fragment is longer than the cap: then, after any number of iterations,
  every text in \<open>response_message_contents\<close> and every text sent in a reply or an edit has
  at most \<open>EMBED_MAX_LENGTH\<close> characters.
\<close>

theorem segments_within_cap:
  assumes "\<forall>x \<in> set xs. length (fragment x) \<le> EMBED_MAX_LENGTH"
    and "stream_loop message_id w (take k xs) (stream_init ids) = Inr s"
  shows "(\<forall>c \<in> set (response_message_contents s). length c \<le> EMBED_MAX_LENGTH)
       \<and> (\<forall>r \<in> set (rendering (events s)). length (description (snd r)) \<le> EMBED_MAX_LENGTH)"
proof -
  have frs: "\<forall>x \<in> set (take k xs). length (fragment x) \<le> EMBED_MAX_LENGTH"
    using assms(1) by (auto dest: in_set_takeD)
  have c0: "within_cap (stream_init ids)"
    by (simp add: within_cap_def stream_init_def)
  have p0: "length (pending (stream_init ids)) \<le> EMBED_MAX_LENGTH"
    by (simp add: pending_def stream_init_def)
  have "within_cap s"
    using stream_ok_init c0 p0 frs assms(2) by (rule stream_loop_within_cap)
  then show ?thesis by (simp add: within_cap_def)
qed

theorem segments_within_cap_witness:
  "length (fragment (Some ''Hi'', \<lparr>reply_result = Some 100, task_done = True, elapsed_ok = True\<rparr>))
     \<le> EMBED_MAX_LENGTH
   \<and> length (fragment (Some [], \<lparr>reply_result = Some 100, task_done = True, elapsed_ok = True\<rparr>))
     \<le> EMBED_MAX_LENGTH
   \<and> stream_loop 1 {}
        (take 2 [(Some ''Hi'', \<lparr>reply_result = Some 100, task_done = True, elapsed_ok = True\<rparr>),
                 (Some [], \<lparr>reply_result = Some 100, task_done = True, elapsed_ok = True\<rparr>)])
        (stream_init []) =
      Inr \<lparr>response_messages = [100], response_message_contents = [''Hi''],
           previous_content = Some [], edit_message_task = None,
           embed = Some \<lparr>description = ''Hi'', color = complete, embed_fields = []\<rparr>,
           in_progress_message_ids = [100],
           events = [Reply 1 100 \<lparr>description = ''Hi'', color = complete, embed_fields = []\<rparr>]\<rparr>
   \<and> length ''Hi'' \<le> EMBED_MAX_LENGTH"
proof -
  define xs where "xs = [(Some ''Hi'', \<lparr>reply_result = Some (100::nat), task_done = True, elapsed_ok = True\<rparr>),
                (Some [], \<lparr>reply_result = Some 100, task_done = True, elapsed_ok = True\<rparr>)]"
  have h: "\<forall>x \<in> set xs. length (fragment x) \<le> EMBED_MAX_LENGTH"
    by (simp add: xs_def fragment_def EMBED_MAX_LENGTH_def)
  have run: "stream_loop 1 {} (take 2 xs) (stream_init []) =
      Inr \<lparr>response_messages = [100], response_message_contents = [''Hi''],
           previous_content = Some [], edit_message_task = None,
           embed = Some \<lparr>description = ''Hi'', color = complete, embed_fields = []\<rparr>,
           in_progress_message_ids = [100],
           events = [Reply 1 100 \<lparr>description = ''Hi'', color = complete, embed_fields = []\<rparr>]\<rparr>"
    by (simp add: xs_def stream_init_def on_chunk_def needs_new_message_def open_segment_def
        append_previous_def last_content_def flush_def sorted_warnings_def Let_def)
  from segments_within_cap[OF h run] h run show ?thesis
    unfolding xs_def by simp
qed


text \<open>
  C3 as stated fails: one fragment of 4097 characters opens a segment that holds all of it.
\<close>

theorem oversize_fragment_counterexample:
  "stream_loop 1 {}
     [(Some (replicate 4097 (CHR ''a'')), \<lparr>reply_result = Some 100, task_done = True, elapsed_ok = True\<rparr>),
      (Some [], \<lparr>reply_result = Some 100, task_done = True, elapsed_ok = True\<rparr>)]
     (stream_init []) =
   Inr \<lparr>response_messages = [100],
        response_message_contents = [replicate 4097 (CHR ''a'')],
        previous_content = Some [], edit_message_task = None,
        embed = Some \<lparr>description = replicate 4097 (CHR ''a''), color = complete,
                      embed_fields = []\<rparr>,
        in_progress_message_ids = [100],
        events = [Reply 1 100 \<lparr>description = replicate 4097 (CHR ''a''), color = complete,
                               embed_fields = []\<rparr>]\<rparr>
   \<and> length (replicate 4097 (CHR ''a'')) > EMBED_MAX_LENGTH"
  by (simp add: stream_init_def on_chunk_def needs_new_message_def open_segment_def
      append_previous_def last_content_def flush_def sorted_warnings_def Let_def
      EMBED_MAX_LENGTH_def)






















section \<open>Properties of the prompt and of the walk\<close>

lemma history_loop_None:
  "history_loop mx objs None rc w = (rc, w)"
  by (simp add: history_loop.simps)

lemma history_loop_Some:
  "history_loop mx objs (Some a) rc w =
     (if int (length rc) < mx
      then history_loop mx objs (replied_to (objs ! a)) (rc @ [message (objs ! a)])
             (if int (length rc) + 1 = mx \<and> replied_to (objs ! a) \<noteq> None
              then insert MAX_MESSAGE_WARNING
                     (if too_many_images (objs ! a) then insert MAX_IMAGE_WARNING w else w)
              else (if too_many_images (objs ! a) then insert MAX_IMAGE_WARNING w else w))
      else (rc, w))"
  by (subst history_loop.simps) (auto simp: Let_def)

lemma is_chain_replied_to:
  "is_chain objs (replied_to x) as \<Longrightarrow> (replied_to x \<noteq> None) = (as \<noteq> [])"
  by (cases as) auto

lemma chain_warnings_zero: "chain_warnings objs 0 as = {}"
  by (simp add: chain_warnings_def)

lemma chain_warnings_Suc:
  "chain_warnings objs (Suc k) (a # as) =
     (if too_many_images (objs ! a) then {MAX_IMAGE_WARNING} else {})
     \<union> (if k = 0 \<and> as \<noteq> [] then {MAX_MESSAGE_WARNING} else {})
     \<union> chain_warnings objs k as"
  by (cases k) (auto simp: chain_warnings_def)

lemma history_loop_chain:
  "is_chain objs cur as \<Longrightarrow>
   history_loop mx objs cur rc w =
     (rc @ map (\<lambda>a. message (objs ! a)) (take (nat (mx - int (length rc))) as),
      w \<union> chain_warnings objs (nat (mx - int (length rc))) as)"
proof (induction as arbitrary: cur rc w)
  case Nil
  then show ?case
    by (simp add: history_loop_None chain_warnings_def)
next
  case (Cons a as)
  then have cur: "cur = Some a" and rest: "is_chain objs (replied_to (objs ! a)) as"
    by simp_all
  show ?case
  proof (cases "int (length rc) < mx")
    case False
    then have "nat (mx - int (length rc)) = 0" by simp
    with False show ?thesis
      by (simp add: cur history_loop_Some chain_warnings_zero)
  next
    case True
    then obtain k where k: "nat (mx - int (length rc)) = Suc k"
      by (cases "nat (mx - int (length rc))") auto
    then have k': "nat (mx - int (length (rc @ [message (objs ! a)]))) = k"
      by simp
    have one: "(int (length rc) + 1 = mx) = (k = 0)"
      using k by auto
    have nn: "(replied_to (objs ! a) \<noteq> None) = (as \<noteq> [])"
      using rest by (rule is_chain_replied_to)
    show ?thesis
      unfolding cur
      apply (subst history_loop_Some)
      apply (simp only: True if_True Cons.IH[OF rest] k' k one nn chain_warnings_Suc)
      apply auto
      done
  qed
qed

text \<open>
  C7, as the code has it. With \<open>MAX_MESSAGES\<close> of at least 1, and a chain \<open>as\<close> of nodes
  without \<open>too_many_images\<close> that starts at the node of the triggering message, the prompt
  is the system prompt followed by the entries of the first \<open>MAX_MESSAGES\<close> nodes of the
  chain (all of them when the chain is shorter), oldest first; the warnings are empty when
  the chain has at most \<open>MAX_MESSAGES\<close> nodes and hold the message-count warning, and
  nothing else, when it is longer.
\<close>

theorem history_of_chain:
  assumes "1 \<le> MAX_MESSAGES cfg"
    and "message_nodes st message_id = Some leaf"
    and "is_chain (objects st) (Some leaf) as"
    and "\<forall>a \<in> set as. \<not> too_many_images (objects st ! a)"
  shows "build_history cfg today st message_id =
     Inr (get_system_prompt cfg today
            @ rev (map (\<lambda>a. message (objects st ! a)) (take (nat (MAX_MESSAGES cfg)) as)),
          if int (length as) > MAX_MESSAGES cfg then {MAX_MESSAGE_WARNING} else {})"
proof -
  from assms(3) obtain bs where as: "as = leaf # bs"
    by (cases as) auto
  from assms(1) obtain k where k: "nat (MAX_MESSAGES cfg) = Suc k"
    by (cases "nat (MAX_MESSAGES cfg)") auto
  have no: "\<not> (\<exists>a \<in> set (take (nat (MAX_MESSAGES cfg)) as). too_many_images (objects st ! a))"
    using assms(4) by (auto dest: in_set_takeD)
  have lt: "(nat (MAX_MESSAGES cfg) < length as) = (int (length as) > MAX_MESSAGES cfg)"
    using assms(1) by auto
  have w: "chain_warnings (objects st) (nat (MAX_MESSAGES cfg)) as
      = (if int (length as) > MAX_MESSAGES cfg then {MAX_MESSAGE_WARNING} else {})"
    unfolding chain_warnings_def using no lt k by simp
  have "history_loop (MAX_MESSAGES cfg) (objects st) (Some leaf) [] {}
      = (map (\<lambda>a. message (objects st ! a)) (take (nat (MAX_MESSAGES cfg)) as),
         if int (length as) > MAX_MESSAGES cfg then {MAX_MESSAGE_WARNING} else {})"
    using history_loop_chain[OF assms(3), of "MAX_MESSAGES cfg" "[]" "{}"] w by simp
  then show ?thesis
    by (simp add: build_history_def assms(2) as k)
qed

theorem history_of_chain_witness:
  "build_history (example_config\<lparr>MAX_MESSAGES := 2\<rparr>) ''November 03 2026'' example_store 3 =
     Inr (get_system_prompt (example_config\<lparr>MAX_MESSAGES := 2\<rparr>) ''November 03 2026''
            @ [example_entry ''B'', example_entry ''C''],
          {MAX_MESSAGE_WARNING})"
proof -
  have h1: "1 \<le> MAX_MESSAGES (example_config\<lparr>MAX_MESSAGES := 2\<rparr>)" by simp
  have h2: "message_nodes example_store 3 = Some 0" by (simp add: example_store_def)
  have h3: "is_chain (objects example_store) (Some 0) [0, 1, 2]"
    by (simp add: example_store_def)
  have h4: "\<forall>a \<in> set [0, 1, 2]. \<not> too_many_images (objects example_store ! a)"
    by (simp add: example_store_def)
  from history_of_chain[OF h1 h2 h3 h4, of "''November 03 2026''"] show ?thesis
    by (simp add: example_store_def numeral_2_eq_2)
qed

text \<open>
  C7 as stated fails for \<open>MAX_MESSAGES = 0\<close>: the chain of three nodes is longer than the
  cap, yet the loop collects nothing and adds no warning, and the log line then raises.
\<close>

theorem zero_cap_counterexample:
  "history_loop 0 (objects example_store) (Some 0) [] {} = ([], {})
   \<and> build_history (example_config\<lparr>MAX_MESSAGES := 0\<rparr>) ''November 03 2026'' example_store 3
       = Inl IndexError
   \<and> is_chain (objects example_store) (Some 0) [0, 1, 2]"
  by (simp add: history_loop_Some build_history_def example_store_def)

lemma update_node_Inr:
  "message_nodes st key = Some a \<Longrightarrow>
   update_node key f st = Inr (st\<lparr>objects := (objects st)[a := f (objects st ! a)]\<rparr>)"
  by (simp add: update_node_def)

lemma visit_unfold:
  assumes "current_message_text cfg m = Inr t"
  shows "visit cfg m prev st =
     (case prev of
        None \<Rightarrow> Inr (store_node (msg_id m) (node_of cfg m) st)
      | Some p \<Rightarrow>
          if p = 0 then Inr (store_node (msg_id m) (node_of cfg m) st)
          else update_node p (\<lambda>n. n\<lparr>replied_to := Some (length (objects st))\<rparr>)
                 (store_node (msg_id m) (node_of cfg m) st))"
proof -
  define n0 where "n0 = \<lparr>message =
        \<lparr>role = (if author_id m = bot_id cfg then Assistant else User),
         content = current_message_content cfg t (current_message_images m),
         name = Some (str (author_id m))\<rparr>,
      too_many_images = False, replied_to = None\<rparr>"
  have mn: "message_nodes (store_node (msg_id m) n0 st) (msg_id m) = Some (length (objects st))"
    by (simp add: store_node_def)
  have st2: "(if int (length (current_message_images m)) > MAX_IMAGES cfg
             then update_node (msg_id m) (\<lambda>n. n\<lparr>too_many_images := True\<rparr>) (store_node (msg_id m) n0 st)
             else Inr (store_node (msg_id m) n0 st))
           = Inr (store_node (msg_id m) (node_of cfg m) st)"
    by (simp add: update_node_Inr[OF mn]) (simp add: store_node_def node_of_def assms n0_def)
  have mn2: "message_nodes (store_node (msg_id m) (node_of cfg m) st) (msg_id m)
      = Some (length (objects st))"
    by (simp add: store_node_def)
  have v: "visit cfg m prev st =
     (case (if int (length (current_message_images m)) > MAX_IMAGES cfg
            then update_node (msg_id m) (\<lambda>n. n\<lparr>too_many_images := True\<rparr>)
                   (store_node (msg_id m) n0 st)
            else Inr (store_node (msg_id m) n0 st)) of
        Inl e \<Rightarrow> Inl e
      | Inr st2 \<Rightarrow>
          (case prev of
             None \<Rightarrow> Inr st2
           | Some p \<Rightarrow>
               if p = 0 then Inr st2
               else (case message_nodes st2 (msg_id m) of
                       None \<Rightarrow> Inl KeyError
                     | Some a \<Rightarrow> update_node p (\<lambda>n. n\<lparr>replied_to := Some a\<rparr>) st2)))"
    by (simp only: visit_def assms sum.case Let_def n0_def)
  show ?thesis
    unfolding v st2 by (simp add: mn2 split: option.splits)
qed

lemma visit_first:
  assumes "current_message_text cfg m = Inr t"
  shows "visit cfg m None st = Inr (store_node (msg_id m) (node_of cfg m) st)"
  by (simp add: visit_unfold[OF assms])

lemma visit_Inl_text:
  "current_message_text cfg m = Inl e \<Longrightarrow> visit cfg m prev st = Inl e"
  by (simp add: visit_def)

lemma visit_node:
  assumes "visit cfg m prev st = Inr st'"
  shows "message_nodes st' (msg_id m) = Some (length (objects st))
       \<and> length (objects st') = Suc (length (objects st))
       \<and> message (objects st' ! length (objects st)) = message (node_of cfg m)
       \<and> too_many_images (objects st' ! length (objects st)) = too_many_images (node_of cfg m)"
proof (cases "current_message_text cfg m")
  case (Inl e)
  with assms show ?thesis by (simp add: visit_Inl_text)
next
  case (Inr t)
  define st1 where "st1 = store_node (msg_id m) (node_of cfg m) st"
  have st1: "message_nodes st1 (msg_id m) = Some (length (objects st))"
    "objects st1 = objects st @ [node_of cfg m]"
    by (simp_all add: st1_def store_node_def)
  have upd: ?thesis
    if "st' = st1\<lparr>objects := (objects st1)[ap := (objects st1 ! ap)\<lparr>replied_to := Some k\<rparr>]\<rparr>"
    for ap k
    using that st1 by (cases "ap = length (objects st)") (simp_all add: nth_list_update)
  show ?thesis
  proof (cases prev)
    case None
    with assms Inr have "st' = st1" by (simp add: visit_unfold st1_def)
    with st1 show ?thesis by simp
  next
    case (Some p)
    show ?thesis
    proof (cases "p = 0")
      case True
      with assms Inr Some have "st' = st1" by (simp add: visit_unfold st1_def)
      with st1 show ?thesis by simp
    next
      case False
      with assms Inr Some have
        u: "update_node p (\<lambda>n. n\<lparr>replied_to := Some (length (objects st))\<rparr>) st1 = Inr st'"
        by (simp add: visit_unfold st1_def)
      then obtain ap where "message_nodes st1 p = Some ap"
        by (cases "message_nodes st1 p") (simp_all add: update_node_def)
      with u have "st' = st1\<lparr>objects := (objects st1)[ap := (objects st1 ! ap)\<lparr>replied_to := Some (length (objects st))\<rparr>]\<rparr>"
        by (simp add: update_node_Inr)
      then show ?thesis by (rule upd)
    qed
  qed
qed

lemma filter_is_image_images:
  "filter is_image (current_message_images m) = current_message_images m"
  by (simp add: current_message_images_def filter_map o_def)

lemma filter_is_image_py_take:
  "filter is_image (py_take k (current_message_images m)) = py_take k (current_message_images m)"
proof -
  have "\<forall>x \<in> set (current_message_images m). is_image x"
    by (auto simp: current_message_images_def)
  then have "\<forall>x \<in> set (py_take k (current_message_images m)). is_image x"
    by (auto simp: py_take_def dest: in_set_takeD)
  then show ?thesis by (simp add: filter_id_conv)
qed

lemma image_parts_content:
  "image_parts (current_message_content cfg t (current_message_images m)) =
     (if contains ''mistral'' (LLM cfg) then []
      else py_take (MAX_IMAGES cfg) (current_message_images m))"
  by (simp add: current_message_content_def filter_is_image_py_take)

lemma length_py_take: "0 \<le> k \<Longrightarrow> int (length (py_take k xs)) \<le> k"
  by (simp add: py_take_def)

lemma history_image_warning:
  assumes "is_chain objs (Some leaf) as"
    and "a \<in> set (take (nat mx) as)"
    and "too_many_images (objs ! a)"
  shows "\<exists>c cs ws. history_loop mx objs (Some leaf) [] {} = (c # cs, ws) \<and> MAX_IMAGE_WARNING \<in> ws"
proof -
  from assms(2) have "take (nat mx) as \<noteq> []" by auto
  then obtain c cs where c: "map (\<lambda>a. message (objs ! a)) (take (nat mx) as) = c # cs"
    by (cases "map (\<lambda>a. message (objs ! a)) (take (nat mx) as)") auto
  have "MAX_IMAGE_WARNING \<in> chain_warnings objs (nat mx) as"
    using assms(2,3) by (auto simp: chain_warnings_def)
  with c show ?thesis
    using history_loop_chain[OF assms(1), of mx "[]" "{}"] by simp
qed

text \<open>
  C8, as the code has it. What counts are the attachments whose content type contains
  \<open>image\<close>. When there are more of them than \<open>MAX_IMAGES\<close>, the node that an iteration
  of the walk builds for the message has \<open>too_many_images\<close> set; the image references in
  its content are those that the slice \<open>[:MAX_IMAGES]\<close> keeps (none for a mistral model,
  whose content is the plain text), at most \<open>MAX_IMAGES\<close> of them when \<open>MAX_IMAGES\<close> is
  not negative; and every prompt assembled over a chain that collects the node, with its
  flag set, carries the image warning.
\<close>

theorem too_many_images_flagged:
  assumes "int (length (current_message_images m)) > MAX_IMAGES cfg"
    and "visit cfg m previous st = Inr st'"
  shows "\<exists>a. message_nodes st' (msg_id m) = Some a \<and> a < length (objects st')
       \<and> too_many_images (objects st' ! a)
       \<and> image_parts (content (message (objects st' ! a))) =
           (if contains ''mistral'' (LLM cfg) then []
            else py_take (MAX_IMAGES cfg) (current_message_images m))
       \<and> (0 \<le> MAX_IMAGES cfg \<longrightarrow>
            int (length (image_parts (content (message (objects st' ! a))))) \<le> MAX_IMAGES cfg)
       \<and> (\<forall>st2 message_id leaf as today.
            message_nodes st2 message_id = Some leaf
            \<and> is_chain (objects st2) (Some leaf) as
            \<and> a \<in> set (take (nat (MAX_MESSAGES cfg)) as)
            \<and> too_many_images (objects st2 ! a) \<longrightarrow>
            (\<exists>messages user_warnings.
               build_history cfg today st2 message_id = Inr (messages, user_warnings)
               \<and> MAX_IMAGE_WARNING \<in> user_warnings))"
proof -
  let ?a = "length (objects st)"
  note n = visit_node[OF assms(2)]
  have flag: "too_many_images (objects st' ! ?a)"
    using n assms(1) by (simp add: node_of_def)
  have parts: "image_parts (content (message (objects st' ! ?a))) =
           (if contains ''mistral'' (LLM cfg) then []
            else py_take (MAX_IMAGES cfg) (current_message_images m))"
    using n by (simp add: node_of_def image_parts_content)
  have bound: "0 \<le> MAX_IMAGES cfg \<longrightarrow>
            int (length (image_parts (content (message (objects st' ! ?a))))) \<le> MAX_IMAGES cfg"
    unfolding parts by (simp add: length_py_take)
  have hist: "\<exists>messages user_warnings.
               build_history cfg today st2 message_id = Inr (messages, user_warnings)
               \<and> MAX_IMAGE_WARNING \<in> user_warnings"
    if "message_nodes st2 message_id = Some leaf"
      and "is_chain (objects st2) (Some leaf) as"
      and "?a \<in> set (take (nat (MAX_MESSAGES cfg)) as)"
      and "too_many_images (objects st2 ! ?a)"
    for st2 message_id leaf as today
  proof -
    from history_image_warning[OF that(2,3,4)] obtain c cs ws
      where "history_loop (MAX_MESSAGES cfg) (objects st2) (Some leaf) [] {} = (c # cs, ws)"
        and "MAX_IMAGE_WARNING \<in> ws"
      by blast
    then show ?thesis
      by (simp add: build_history_def that(1))
  qed
  have "message_nodes st' (msg_id m) = Some ?a \<and> ?a < length (objects st')"
    using n by simp
  with flag parts bound hist show ?thesis
    by blast
qed

theorem too_many_images_flagged_witness:
  "visit vision_config two_pictures None \<lparr>message_nodes = Map.empty, objects = []\<rparr> =
     Inr \<lparr>message_nodes = [1 \<mapsto> 0],
          objects = [\<lparr>message = \<lparr>role = User,
                                 content = Parts [text_part ''look'', image_url ''u1''],
                                 name = Some (str 7)\<rparr>,
                      too_many_images = True, replied_to = None\<rparr>]\<rparr>
   \<and> (\<exists>messages user_warnings.
        build_history vision_config ''November 03 2026''
          \<lparr>message_nodes = [1 \<mapsto> 0],
           objects = [\<lparr>message = \<lparr>role = User,
                                  content = Parts [text_part ''look'', image_url ''u1''],
                                  name = Some (str 7)\<rparr>,
                       too_many_images = True, replied_to = None\<rparr>]\<rparr> 1
        = Inr (messages, user_warnings)
        \<and> MAX_IMAGE_WARNING \<in> user_warnings)"
proof -
  define S where "S = \<lparr>message_nodes = [1 \<mapsto> (0::nat)],
          objects = [\<lparr>message = \<lparr>role = User,
                                 content = Parts [text_part ''look'', image_url ''u1''],
                                 name = Some (str 7)\<rparr>,
                      too_many_images = True, replied_to = None\<rparr>]\<rparr>"
  have h1: "int (length (current_message_images two_pictures)) > MAX_IMAGES vision_config"
    by (simp add: current_message_images_def two_pictures_def MAX_IMAGES_def
        LLM_VISION_SUPPORT_def vision_config_def)
  have h2: "visit vision_config two_pictures None \<lparr>message_nodes = Map.empty, objects = []\<rparr> = Inr S"
    by (simp add: visit_def current_message_text_def current_message_images_def
        current_message_content_def two_pictures_def vision_config_def MAX_IMAGES_def
        LLM_VISION_SUPPORT_def py_take_def store_node_def update_node_def Let_def S_def)
  from too_many_images_flagged[OF h1 h2] obtain a where a: "message_nodes S (msg_id two_pictures) = Some a"
    and hist: "\<forall>st2 message_id leaf as today.
            message_nodes st2 message_id = Some leaf
            \<and> is_chain (objects st2) (Some leaf) as
            \<and> a \<in> set (take (nat (MAX_MESSAGES vision_config)) as)
            \<and> too_many_images (objects st2 ! a) \<longrightarrow>
            (\<exists>messages user_warnings.
               build_history vision_config today st2 message_id = Inr (messages, user_warnings)
               \<and> MAX_IMAGE_WARNING \<in> user_warnings)"
    by blast
  from a have a0: "a = 0" by (simp add: S_def two_pictures_def)
  have "message_nodes S 1 = Some 0 \<and> is_chain (objects S) (Some 0) [0]
      \<and> a \<in> set (take (nat (MAX_MESSAGES vision_config)) [0])
      \<and> too_many_images (objects S ! a)"
    by (simp add: S_def a0 vision_config_def)
  with hist have "\<exists>messages user_warnings.
               build_history vision_config ''November 03 2026'' S 1 = Inr (messages, user_warnings)
               \<and> MAX_IMAGE_WARNING \<in> user_warnings"
    by blast
  with h2 show ?thesis
    unfolding S_def by simp
qed

text \<open>
  C8 as stated fails twice. An attachment that is no image is not counted: with a cap of 0
  and one PDF attached, the node is not flagged. And a negative cap cuts from the end:
  with \<open>MAX_IMAGES = -1\<close> and three pictures the content keeps two, more than the cap.
\<close>

theorem attachment_count_counterexample:
  "int (length (attachments
      (Message 1 7 False ''read'' [] [\<lparr>url = ''u1'', content_type = ''application/pdf''\<rparr>]
         None True []))) > MAX_IMAGES example_config
   \<and> visit example_config
       (Message 1 7 False ''read'' [] [\<lparr>url = ''u1'', content_type = ''application/pdf''\<rparr>]
          None True [])
       None \<lparr>message_nodes = Map.empty, objects = []\<rparr> =
     Inr \<lparr>message_nodes = [1 \<mapsto> 0],
          objects = [\<lparr>message = \<lparr>role = User, content = Parts [text_part ''read''],
                                 name = Some (str 7)\<rparr>,
                      too_many_images = False, replied_to = None\<rparr>]\<rparr>
   \<and> MAX_IMAGES (vision_config\<lparr>MAX_IMAGES_env := - 1\<rparr>) = - 1
   \<and> visit (vision_config\<lparr>MAX_IMAGES_env := - 1\<rparr>)
       (Message 1 7 False ''look'' []
          [\<lparr>url = ''u1'', content_type = ''image/png''\<rparr>,
           \<lparr>url = ''u2'', content_type = ''image/png''\<rparr>,
           \<lparr>url = ''u3'', content_type = ''image/png''\<rparr>]
          None True [])
       None \<lparr>message_nodes = Map.empty, objects = []\<rparr> =
     Inr \<lparr>message_nodes = [1 \<mapsto> 0],
          objects = [\<lparr>message = \<lparr>role = User,
                                 content = Parts [text_part ''look'', image_url ''u1'',
                                                  image_url ''u2''],
                                 name = Some (str 7)\<rparr>,
                      too_many_images = True, replied_to = None\<rparr>]\<rparr>"
  by (simp add: visit_def current_message_text_def current_message_images_def
      current_message_content_def example_config_def vision_config_def MAX_IMAGES_def
      LLM_VISION_SUPPORT_def py_take_def store_node_def update_node_def Let_def)

lemma ascent_text:
  "ascent cfg fetch known m ms \<Longrightarrow> \<exists>t. current_message_text cfg m = Inr t"
  by (cases ms; cases "current_message_text cfg m") simp_all

lemma ascent_ids_fresh:
  "ascent cfg fetch known m ms \<Longrightarrow> x \<in> set ms \<Longrightarrow> msg_id x \<notin> insert (msg_id m) known"
proof (induction ms arbitrary: m known)
  case Nil
  then show ?case by simp
next
  case (Cons m' ms)
  from Cons.prems(1) obtain r where r: "reference m = Some r"
    "ref_message_id r \<notin> insert (msg_id m) known" "msg_id m' = ref_message_id r"
    "ascent cfg fetch (insert (msg_id m) known) m' ms"
    by (auto split: sum.splits option.splits)
  show ?case
  proof (cases "x = m'")
    case True
    with r show ?thesis by simp
  next
    case False
    with Cons.prems(2) have "x \<in> set ms" by simp
    with r(4) have "msg_id x \<notin> insert (msg_id m') (insert (msg_id m) known)"
      by (rule Cons.IH)
    then show ?thesis by simp
  qed
qed

lemma visit_next:
  assumes "current_message_text cfg m = Inr t"
    and "p \<noteq> 0" and "message_nodes st p = Some ap" and "ap < length (objects st)"
    and "msg_id m \<noteq> p"
  shows "visit cfg m (Some p) st =
     Inr \<lparr>message_nodes = (message_nodes st)(msg_id m \<mapsto> length (objects st)),
          objects = (objects st)[ap := (objects st ! ap)\<lparr>replied_to := Some (length (objects st))\<rparr>]
                    @ [node_of cfg m]\<rparr>"
proof -
  have mn: "message_nodes (store_node (msg_id m) (node_of cfg m) st) p = Some ap"
    using assms(3,5) by (simp add: store_node_def)
  show ?thesis
    using assms(2,4)
    by (simp add: visit_unfold[OF assms(1)] update_node_Inr[OF mn])
       (simp add: store_node_def list_update_append1 nth_append)
qed

lemma visit_start:
  assumes "current_message_text cfg m = Inr t"
  shows "visit cfg m None st =
     Inr \<lparr>message_nodes = (message_nodes st)(msg_id m \<mapsto> length (objects st)),
          objects = objects st @ [node_of cfg m]\<rparr>"
  by (simp add: visit_first[OF assms] store_node_def)

lemma chain_loop_stop:
  assumes asc: "ascent cfg fetch (dom (message_nodes st)) m []"
    and v: "visit cfg m prev st = Inr st1"
    and d: "dom (message_nodes st1) = insert (msg_id m) (dom (message_nodes st))"
  shows "chain_loop (Suc f) cfg fetch m prev st = Some (Inr st1)"
proof -
  from asc obtain r where r: "reference m = Some r"
    "ref_message_id r \<notin> insert (msg_id m) (dom (message_nodes st))"
    "resolved r = None"
    "fetch (ref_message_id r) = NotFound \<or> fetch (ref_message_id r) = HTTPError"
    by (auto split: sum.splits option.splits)
  from r(2) d have "message_nodes st1 (ref_message_id r) = None"
    by (metis domIff)
  with r(1,3,4) v show ?thesis
    by auto
qed

lemma chain_loop_go:
  assumes asc: "ascent cfg fetch (dom (message_nodes st)) m (m' # ms)"
    and v: "visit cfg m prev st = Inr st1"
    and d: "dom (message_nodes st1) = insert (msg_id m) (dom (message_nodes st))"
  shows "chain_loop (Suc f) cfg fetch m prev st
       = chain_loop f cfg fetch m' (Some (msg_id m)) st1"
proof -
  from asc obtain r where r: "reference m = Some r"
    "ref_message_id r \<notin> insert (msg_id m) (dom (message_nodes st))"
    "case resolved r of Some x \<Rightarrow> x = m' | None \<Rightarrow> fetch (ref_message_id r) = Fetched m'"
    by (auto split: sum.splits option.splits)
  from r(2) d have "message_nodes st1 (ref_message_id r) = None"
    by (metis domIff)
  with r(1,3) v show ?thesis
    by (cases "resolved r") auto
qed

lemma upt_Suc_left: "[n ..< n + Suc k] = n # [Suc n ..< Suc n + k]"
  by (subst upt_rec) simp

lemma update_last_snoc:
  "length xs = n \<Longrightarrow> (xs @ [y])[n := g ((xs @ [y]) ! n)] = xs @ [g y]"
  by (simp add: list_update_append nth_append)

lemma chain_loop_ascent_from:
  assumes "ascent cfg fetch (dom (message_nodes st)) m ms"
    and "length ms < fuel"
    and "p \<noteq> 0" and "message_nodes st p = Some ap" and "ap < length (objects st)"
    and "msg_id m \<notin> dom (message_nodes st)"
  shows "chain_loop fuel cfg fetch m (Some p) st =
     Some (Inr \<lparr>message_nodes = message_nodes st
                   ++ map_of (zip (map msg_id (m # ms))
                        [length (objects st) ..< length (objects st) + Suc (length ms)]),
                objects = (objects st)[ap := (objects st ! ap)\<lparr>replied_to := Some (length (objects st))\<rparr>]
                          @ linked (length (objects st)) (map (node_of cfg) (m # ms))\<rparr>)"
  using assms
proof (induction ms arbitrary: m p ap st fuel)
  case Nil
  from Nil.prems(2) obtain f where f: "fuel = Suc f" by (cases fuel) auto
  from ascent_text[OF Nil.prems(1)] obtain t where t: "current_message_text cfg m = Inr t"
    by blast
  from Nil.prems(4,6) have ne: "msg_id m \<noteq> p" by auto
  note v = visit_next[OF t Nil.prems(3,4,5) ne]
  have res: "chain_loop (Suc f) cfg fetch m (Some p) st = Some (Inr
      \<lparr>message_nodes = (message_nodes st)(msg_id m \<mapsto> length (objects st)),
       objects = (objects st)[ap := (objects st ! ap)\<lparr>replied_to := Some (length (objects st))\<rparr>]
                    @ [node_of cfg m]\<rparr>)"
    using Nil.prems(1) v by (rule chain_loop_stop) simp
  show ?case
    unfolding f res by (auto simp: fun_eq_iff map_add_def)
next
  case (Cons m' ms)
  let ?n = "length (objects st)"
  from Cons.prems(2) obtain f where f: "fuel = Suc f" and lf: "length ms < f"
    by (cases fuel) auto
  from ascent_text[OF Cons.prems(1)] obtain t where t: "current_message_text cfg m = Inr t"
    by blast
  from Cons.prems(4,6) have ne: "msg_id m \<noteq> p" by auto
  define st1 where "st1 = \<lparr>message_nodes = (message_nodes st)(msg_id m \<mapsto> ?n),
       objects = (objects st)[ap := (objects st ! ap)\<lparr>replied_to := Some ?n\<rparr>] @ [node_of cfg m]\<rparr>"
  have v: "visit cfg m (Some p) st = Inr st1"
    unfolding st1_def by (rule visit_next[OF t Cons.prems(3,4,5) ne])
  have d1: "dom (message_nodes st1) = insert (msg_id m) (dom (message_nodes st))"
    by (simp add: st1_def)
  have go: "chain_loop fuel cfg fetch m (Some p) st
      = chain_loop f cfg fetch m' (Some (msg_id m)) st1"
    unfolding f using Cons.prems(1) v d1 by (rule chain_loop_go)
  from Cons.prems(1) obtain r where r: "msg_id m \<noteq> 0"
    "ref_message_id r \<notin> insert (msg_id m) (dom (message_nodes st))"
    "msg_id m' = ref_message_id r"
    "ascent cfg fetch (insert (msg_id m) (dom (message_nodes st))) m' ms"
    by (auto split: sum.splits option.splits)
  have a1: "ascent cfg fetch (dom (message_nodes st1)) m' ms"
    using r(4) d1 by simp
  have mp: "message_nodes st1 (msg_id m) = Some ?n"
    by (simp add: st1_def)
  have ln: "?n < length (objects st1)" and len1: "length (objects st1) = Suc ?n"
    by (simp_all add: st1_def)
  have fresh': "msg_id m' \<notin> dom (message_nodes st1)"
    using r(2,3) d1 by simp
  note ih = Cons.IH[OF a1 lf r(1) mp ln fresh']
  have fr: "msg_id m \<notin> set (map msg_id (m' # ms))"
  proof
    assume "msg_id m \<in> set (map msg_id (m' # ms))"
    then have "msg_id m \<in> msg_id ` set (m' # ms)" by (simp only: set_map)
    then obtain x where x: "msg_id m = msg_id x" "x \<in> set (m' # ms)" by (rule imageE)
    from ascent_ids_fresh[OF Cons.prems(1) x(2)] x(1) show False by simp
  qed
  define M where "M = map_of (zip (map msg_id (m' # ms)) [Suc ?n ..< Suc ?n + Suc (length ms)])"
  have nd: "msg_id m \<notin> dom M"
    unfolding M_def using fr by (auto dest!: map_of_SomeD set_zip_leftD)
  have up: "[?n ..< ?n + Suc (length (m' # ms))] = ?n # [Suc ?n ..< Suc ?n + Suc (length ms)]"
    using upt_Suc_left[of ?n "length (m' # ms)"] by simp
  have rhs: "map_of (zip (map msg_id (m # m' # ms)) [?n ..< ?n + Suc (length (m' # ms))])
      = M(msg_id m \<mapsto> ?n)"
    unfolding up M_def by simp
  have lhs: "message_nodes st1 ++ M = (message_nodes st ++ M)(msg_id m \<mapsto> ?n)"
    using nd by (simp add: st1_def map_add_upd_left)
  have maps: "message_nodes st1
        ++ map_of (zip (map msg_id (m' # ms)) [length (objects st1) ..< length (objects st1) + Suc (length ms)])
      = message_nodes st
        ++ map_of (zip (map msg_id (m # m' # ms)) [?n ..< ?n + Suc (length (m' # ms))])"
    unfolding rhs len1 M_def[symmetric] lhs by simp
  have objs: "(objects st1)[?n := (objects st1 ! ?n)\<lparr>replied_to := Some (length (objects st1))\<rparr>]
        @ linked (length (objects st1)) (map (node_of cfg) (m' # ms))
      = (objects st)[ap := (objects st ! ap)\<lparr>replied_to := Some ?n\<rparr>]
        @ linked ?n (map (node_of cfg) (m # m' # ms))"
    unfolding len1
    by (simp add: st1_def update_last_snoc[where g = "\<lambda>x. x\<lparr>replied_to := Some (Suc ?n)\<rparr>"])
  show ?case
    unfolding go ih maps objs by simp
qed

lemma map_add_zip_Cons:
  assumes "k \<notin> set ks"
  shows "mn(k \<mapsto> n) ++ map_of (zip ks [Suc n ..< Suc n + length ks])
       = mn ++ map_of (zip (k # ks) [n ..< n + Suc (length ks)])"
proof -
  define M where "M = map_of (zip ks [Suc n ..< Suc n + length ks])"
  have nd: "k \<notin> dom M"
    unfolding M_def using assms by (auto dest!: map_of_SomeD set_zip_leftD)
  have "map_of (zip (k # ks) [n ..< n + Suc (length ks)]) = M(k \<mapsto> n)"
    unfolding upt_Suc_left M_def by simp
  moreover have "mn(k \<mapsto> n) ++ M = (mn ++ M)(k \<mapsto> n)"
    using nd by (simp add: map_add_upd_left)
  ultimately show ?thesis
    unfolding M_def[symmetric] by simp
qed

lemma chain_loop_ascent:
  assumes asc: "ascent cfg fetch (dom (message_nodes st)) m ms"
    and fuel: "length ms < fuel"
  shows "chain_loop fuel cfg fetch m None st =
     Some (Inr \<lparr>message_nodes = message_nodes st
                   ++ map_of (zip (map msg_id (m # ms))
                        [length (objects st) ..< length (objects st) + Suc (length ms)]),
                objects = objects st
                          @ linked (length (objects st)) (map (node_of cfg) (m # ms))\<rparr>)"
proof -
  let ?n = "length (objects st)"
  from fuel obtain f where f: "fuel = Suc f" and lf: "length ms \<le> f"
    by (cases fuel) auto
  from ascent_text[OF asc] obtain t where t: "current_message_text cfg m = Inr t"
    by blast
  define st1 where "st1 = \<lparr>message_nodes = (message_nodes st)(msg_id m \<mapsto> ?n),
       objects = objects st @ [node_of cfg m]\<rparr>"
  have v: "visit cfg m None st = Inr st1"
    unfolding st1_def by (rule visit_start[OF t])
  have d1: "dom (message_nodes st1) = insert (msg_id m) (dom (message_nodes st))"
    by (simp add: st1_def)
  show ?thesis
  proof (cases ms)
    case Nil
    have "chain_loop (Suc f) cfg fetch m None st = Some (Inr st1)"
      using asc[unfolded Nil] v d1 by (rule chain_loop_stop)
    then show ?thesis
      unfolding f Nil st1_def by (auto simp: fun_eq_iff map_add_def)
  next
    case (Cons m' ms')
    from lf Cons have lf': "length ms' < f" by simp
    have go: "chain_loop fuel cfg fetch m None st
        = chain_loop f cfg fetch m' (Some (msg_id m)) st1"
      unfolding f using asc[unfolded Cons] v d1 by (rule chain_loop_go)
    from asc[unfolded Cons] obtain r where r: "msg_id m \<noteq> 0"
      "ref_message_id r \<notin> insert (msg_id m) (dom (message_nodes st))"
      "msg_id m' = ref_message_id r"
      "ascent cfg fetch (insert (msg_id m) (dom (message_nodes st))) m' ms'"
      by (auto split: sum.splits option.splits)
    have a1: "ascent cfg fetch (dom (message_nodes st1)) m' ms'"
      using r(4) d1 by simp
    have mp: "message_nodes st1 (msg_id m) = Some ?n"
      by (simp add: st1_def)
    have ln: "?n < length (objects st1)" and len1: "length (objects st1) = Suc ?n"
      by (simp_all add: st1_def)
    have fresh': "msg_id m' \<notin> dom (message_nodes st1)"
      using r(2,3) d1 by simp
    note rest = chain_loop_ascent_from[OF a1 lf' r(1) mp ln fresh']
    have fr: "msg_id m \<notin> set (map msg_id (m' # ms'))"
    proof
      assume "msg_id m \<in> set (map msg_id (m' # ms'))"
      then have "msg_id m \<in> msg_id ` set (m' # ms')" by (simp only: set_map)
      then obtain x where x: "msg_id m = msg_id x" "x \<in> set (m' # ms')" by (rule imageE)
      from ascent_ids_fresh[OF asc[unfolded Cons] x(2)] x(1) show False by simp
    qed
    have maps: "message_nodes st1
          ++ map_of (zip (map msg_id (m' # ms')) [length (objects st1) ..< length (objects st1) + Suc (length ms')])
        = message_nodes st
          ++ map_of (zip (map msg_id (m # m' # ms')) [?n ..< ?n + Suc (length (m' # ms'))])"
      unfolding len1 using map_add_zip_Cons[OF fr, of "message_nodes st" ?n]
      by (simp add: st1_def)
    have objs: "(objects st1)[?n := (objects st1 ! ?n)\<lparr>replied_to := Some (length (objects st1))\<rparr>]
          @ linked (length (objects st1)) (map (node_of cfg) (m' # ms'))
        = objects st @ linked ?n (map (node_of cfg) (m # m' # ms'))"
      unfolding len1
      by (simp add: st1_def update_last_snoc[where g = "\<lambda>x. x\<lparr>replied_to := Some (Suc ?n)\<rparr>"])
    show ?thesis
      unfolding go rest maps objs Cons by simp
  qed
qed

lemma length_linked: "length (linked n xs) = length xs"
  by (induction n xs rule: linked.induct) simp_all

lemma map_message_linked: "map message (linked n xs) = map message xs"
  by (induction n xs rule: linked.induct) simp_all

lemma is_chain_linked:
  "xs \<noteq> [] \<Longrightarrow> \<forall>x \<in> set xs. replied_to x = None \<Longrightarrow> length objs = n \<Longrightarrow>
   is_chain (objs @ linked n xs) (Some n) [n ..< n + length xs]"
proof (induction n xs arbitrary: objs rule: linked.induct)
  case (1 n)
  then show ?case by simp
next
  case (2 n x)
  then have "(objs @ [x]) ! n = x" by (simp add: nth_append)
  with 2 show ?case by simp
next
  case (3 n x y ys)
  let ?x = "x\<lparr>replied_to := Some (Suc n)\<rparr>"
  define R where "R = [Suc n ..< Suc n + length (y # ys)]"
  define H where "H = objs @ linked n (x # y # ys)"
  have H: "H = (objs @ [?x]) @ linked (Suc n) (y # ys)"
    by (simp add: H_def)
  have nth: "H ! n = ?x"
    using "3.prems"(3) by (simp add: H_def nth_append)
  have len: "n < length H"
    using "3.prems"(3) by (simp add: H_def)
  have ch: "is_chain H (Some (Suc n)) R"
    unfolding H R_def using "3.prems" by (intro "3.IH") simp_all
  have up: "[n ..< n + length (x # y # ys)] = n # R"
    unfolding R_def using upt_Suc_left[of n "length (y # ys)"] by simp
  have "is_chain H (Some n) (n # R)"
    using nth len ch by simp
  then show ?case
    unfolding up H_def .
qed

lemma map_nth_upt_append:
  assumes "length objs = n"
  shows "map (\<lambda>a. g ((objs @ L) ! a)) [n ..< n + length L] = map g L"
proof (rule nth_equalityI)
  show "length (map (\<lambda>a. g ((objs @ L) ! a)) [n ..< n + length L]) = length (map g L)"
    by simp
next
  fix i assume "i < length (map (\<lambda>a. g ((objs @ L) ! a)) [n ..< n + length L])"
  then have "i < length L" by simp
  then show "map (\<lambda>a. g ((objs @ L) ! a)) [n ..< n + length L] ! i = map g L ! i"
    using assms by (simp add: nth_append)
qed

text \<open>
  C9. When the walk, after the messages \<open>m # ms\<close>, asks the platform for a message and
  gets \<open>NotFound\<close> or another HTTP error, the loop ends without raising (given fuel for
  its \<open>length ms + 1\<close> iterations): the store has gained exactly the nodes of the messages
  walked, linked in a chain that ends at the last of them. The history collected from the
  node of the triggering message is the entries of these messages, newest first, cut at
  \<open>MAX_MESSAGES\<close>; the message-count warning is in the warnings exactly when the walked
  chain is longer than a cap of at least 1; and with such a cap the prompt is built
  without an error.
\<close>

theorem fetch_failure_truncates:
  assumes "ascent cfg fetch (dom (message_nodes st)) m ms"
    and "length ms < fuel"
  shows "\<exists>st' user_warnings.
       chain_loop fuel cfg fetch m None st = Some (Inr st')
     \<and> objects st' = objects st @ linked (length (objects st)) (map (node_of cfg) (m # ms))
     \<and> history_loop (MAX_MESSAGES cfg) (objects st') (message_nodes st' (msg_id m)) [] {} =
         (take (nat (MAX_MESSAGES cfg)) (map (\<lambda>x. message (node_of cfg x)) (m # ms)),
          user_warnings)
     \<and> (MAX_MESSAGE_WARNING \<in> user_warnings \<longleftrightarrow>
          1 \<le> MAX_MESSAGES cfg \<and> MAX_MESSAGES cfg < int (length (m # ms)))
     \<and> (1 \<le> MAX_MESSAGES cfg \<longrightarrow>
          build_history cfg today st' (msg_id m) =
            Inr (get_system_prompt cfg today
                   @ rev (take (nat (MAX_MESSAGES cfg))
                            (map (\<lambda>x. message (node_of cfg x)) (m # ms))),
                 user_warnings))"
proof -
  let ?n = "length (objects st)"
  let ?k = "nat (MAX_MESSAGES cfg)"
  define nodes where "nodes = map (node_of cfg) (m # ms)"
  define L where "L = linked ?n nodes"
  define as where "as = [?n ..< ?n + length nodes]"
  define st' where "st' = \<lparr>message_nodes = message_nodes st
                   ++ map_of (zip (map msg_id (m # ms)) [?n ..< ?n + Suc (length ms)]),
                objects = objects st @ L\<rparr>"
  define ws where "ws = chain_warnings (objects st') ?k as"
  define entries where "entries = map (\<lambda>x. message (node_of cfg x)) (m # ms)"
  have run: "chain_loop fuel cfg fetch m None st = Some (Inr st')"
    unfolding st'_def L_def nodes_def by (rule chain_loop_ascent[OF assms])
  have objs: "objects st' = objects st @ linked ?n (map (node_of cfg) (m # ms))"
    by (simp add: st'_def L_def nodes_def)
  have "map_of (zip (map msg_id (m # ms)) [?n ..< ?n + Suc (length ms)]) (msg_id m) = Some ?n"
    unfolding upt_Suc_left by simp
  then have leaf: "message_nodes st' (msg_id m) = Some ?n"
    by (simp add: st'_def)
  have ne: "nodes \<noteq> []" and none: "\<forall>x \<in> set nodes. replied_to x = None"
    and len: "length nodes = Suc (length ms)"
    by (auto simp: nodes_def node_of_def)
  have chain: "is_chain (objects st') (Some ?n) as"
    unfolding as_def st'_def L_def using ne none by (simp add: is_chain_linked)
  have lenL: "length L = length nodes"
    by (simp add: L_def length_linked)
  have "map (\<lambda>a. message (objects st' ! a)) as = map message L"
    unfolding as_def lenL[symmetric] st'_def by (simp add: map_nth_upt_append)
  also have "\<dots> = entries"
    by (simp add: L_def map_message_linked nodes_def entries_def o_def)
  finally have ents: "map (\<lambda>a. message (objects st' ! a)) (take ?k as) = take ?k entries"
    by (metis take_map)
  have hist: "history_loop (MAX_MESSAGES cfg) (objects st') (message_nodes st' (msg_id m)) [] {}
      = (take ?k entries, ws)"
    unfolding leaf using history_loop_chain[OF chain, of "MAX_MESSAGES cfg" "[]" "{}"] ents
    by (simp add: ws_def)
  have las: "length as = Suc (length ms)"
    by (simp add: as_def len)
  have warn: "MAX_MESSAGE_WARNING \<in> ws \<longleftrightarrow>
      1 \<le> MAX_MESSAGES cfg \<and> MAX_MESSAGES cfg < int (length (m # ms))"
    unfolding ws_def chain_warnings_def las by auto
  have built: "build_history cfg today st' (msg_id m) =
      Inr (get_system_prompt cfg today @ rev (take ?k entries), ws)"
    if "1 \<le> MAX_MESSAGES cfg"
  proof -
    from that obtain j where j: "?k = Suc j"
      by (cases ?k) auto
    have "entries = message (node_of cfg m) # map (\<lambda>x. message (node_of cfg x)) ms"
      by (simp add: entries_def)
    then obtain c cs where "take ?k entries = c # cs"
      unfolding j by simp
    then show ?thesis
      using hist by (simp add: build_history_def leaf)
  qed
  from run objs hist warn built show ?thesis
    unfolding entries_def by blast
qed

theorem fetch_failure_truncates_witness:
  "\<exists>st' user_warnings.
     chain_loop (Suc (Suc 0)) example_config lossy_fetch third_message None
       \<lparr>message_nodes = Map.empty, objects = []\<rparr> = Some (Inr st')
   \<and> objects st' =
       [\<lparr>message = \<lparr>role = User, content = Parts [text_part ''C''], name = Some (str 7)\<rparr>,
         too_many_images = False, replied_to = Some 1\<rparr>,
        \<lparr>message = \<lparr>role = User, content = Parts [text_part ''B''], name = Some (str 8)\<rparr>,
         too_many_images = False, replied_to = None\<rparr>]
   \<and> build_history example_config ''November 03 2026'' st' 3 =
       Inr (get_system_prompt example_config ''November 03 2026''
              @ [\<lparr>role = User, content = Parts [text_part ''B''], name = Some (str 8)\<rparr>,
                 \<lparr>role = User, content = Parts [text_part ''C''], name = Some (str 7)\<rparr>],
            user_warnings)
   \<and> MAX_MESSAGE_WARNING \<notin> user_warnings"
proof -
  have h1: "ascent example_config lossy_fetch
      (dom (message_nodes \<lparr>message_nodes = Map.empty, objects = []\<rparr>))
      third_message [second_message]"
    by (simp add: third_message_def second_message_def lossy_fetch_def example_config_def
        current_message_text_def)
  have h2: "length [second_message] < Suc (Suc 0)"
    by simp
  from fetch_failure_truncates[OF h1 h2, of "''November 03 2026''"]
  obtain st' ws where r:
    "chain_loop (Suc (Suc 0)) example_config lossy_fetch third_message None
       \<lparr>message_nodes = Map.empty, objects = []\<rparr> = Some (Inr st')"
    "objects st' = objects \<lparr>message_nodes = Map.empty, objects = []\<rparr>
       @ linked (length (objects \<lparr>message_nodes = Map.empty, objects = []\<rparr>))
           (map (node_of example_config) [third_message, second_message])"
    "MAX_MESSAGE_WARNING \<in> ws \<longleftrightarrow>
       1 \<le> MAX_MESSAGES example_config
       \<and> MAX_MESSAGES example_config < int (length [third_message, second_message])"
    "1 \<le> MAX_MESSAGES example_config \<longrightarrow>
       build_history example_config ''November 03 2026'' st' (msg_id third_message) =
         Inr (get_system_prompt example_config ''November 03 2026''
                @ rev (take (nat (MAX_MESSAGES example_config))
                         (map (\<lambda>x. message (node_of example_config x))
                            [third_message, second_message])),
              ws)"
    by blast
  have nodes: "map (node_of example_config) [third_message, second_message] =
       [\<lparr>message = \<lparr>role = User, content = Parts [text_part ''C''], name = Some (str 7)\<rparr>,
         too_many_images = False, replied_to = None\<rparr>,
        \<lparr>message = \<lparr>role = User, content = Parts [text_part ''B''], name = Some (str 8)\<rparr>,
         too_many_images = False, replied_to = None\<rparr>]"
    by (simp add: node_of_def third_message_def second_message_def example_config_def
        current_message_text_def current_message_images_def current_message_content_def
        MAX_IMAGES_def LLM_VISION_SUPPORT_def py_take_def)
  have a: "objects st' =
       [\<lparr>message = \<lparr>role = User, content = Parts [text_part ''C''], name = Some (str 7)\<rparr>,
         too_many_images = False, replied_to = Some 1\<rparr>,
        \<lparr>message = \<lparr>role = User, content = Parts [text_part ''B''], name = Some (str 8)\<rparr>,
         too_many_images = False, replied_to = None\<rparr>]"
    using r(2) unfolding nodes by simp
  have b: "build_history example_config ''November 03 2026'' st' 3 =
       Inr (get_system_prompt example_config ''November 03 2026''
              @ [\<lparr>role = User, content = Parts [text_part ''B''], name = Some (str 8)\<rparr>,
                 \<lparr>role = User, content = Parts [text_part ''C''], name = Some (str 7)\<rparr>],
            ws)"
    using r(4) nodes by (simp add: example_config_def third_message_def)
  have c: "MAX_MESSAGE_WARNING \<notin> ws"
    using r(3) by (simp add: example_config_def)
  from r(1) a b c show ?thesis by blast
qed

section \<open>Properties of the end of the handler\<close>

lemma create_nodes_closed:
  assumes "distinct rs" "message_id \<notin> set rs" "set rs \<subseteq> set ids"
    "message_nodes st message_id = Some a"
  shows "create_nodes cfg message_id contents rs (st, ids) =
     Inr (\<lparr>message_nodes = message_nodes st
              ++ map_of (zip rs [length (objects st) ..< length (objects st) + length rs]),
           objects = objects st @ replicate (length rs) (reply_node cfg contents a)\<rparr>,
          fold remove1 rs ids)"
  using assms
proof (induction rs arbitrary: st ids)
  case Nil
  then show ?case by simp
next
  case (Cons r rs)
  define st1 where "st1 = store_node r (reply_node cfg contents a) st"
  have mn1: "message_nodes st1 = (message_nodes st)(r \<mapsto> length (objects st))"
    and ob1: "objects st1 = objects st @ [reply_node cfg contents a]"
    by (simp_all add: st1_def store_node_def)
  from Cons.prems have r: "r \<in> set ids" "r \<noteq> message_id" "r \<notin> set rs" by auto
  have sub: "set rs \<subseteq> set (remove1 r ids)"
  proof
    fix x assume x: "x \<in> set rs"
    with r(3) have "x \<noteq> r" by auto
    moreover from x Cons.prems(3) have "x \<in> set ids" by auto
    ultimately show "x \<in> set (remove1 r ids)" by (simp add: in_set_remove1)
  qed
  have a1: "message_nodes st1 message_id = Some a"
    using Cons.prems(4) r(2) by (simp add: mn1)
  from Cons.prems have d: "distinct rs" "message_id \<notin> set rs" by auto
  have step: "create_nodes cfg message_id contents (r # rs) (st, ids)
      = create_nodes cfg message_id contents rs (st1, remove1 r ids)"
    using Cons.prems(4) r(1) by (simp add: st1_def reply_node_def Let_def)
  have nd: "r \<notin> dom (map_of (zip rs [Suc (length (objects st)) ..< Suc (length (objects st)) + length rs]))"
    using r(3) by (auto dest: map_of_SomeD set_zip_leftD)
  have "[length (objects st) ..< length (objects st) + length (r # rs)]
      = length (objects st) # [Suc (length (objects st)) ..< Suc (length (objects st)) + length rs]"
    by (subst upt_rec) simp
  then have maps: "message_nodes st
        ++ map_of (zip (r # rs) [length (objects st) ..< length (objects st) + length (r # rs)])
      = message_nodes st1
        ++ map_of (zip rs [length (objects st1) ..< length (objects st1) + length rs])"
    using nd by (simp add: mn1 ob1 map_add_upd_left)
  have objs: "objects st @ replicate (length (r # rs)) (reply_node cfg contents a)
      = objects st1 @ replicate (length rs) (reply_node cfg contents a)"
    by (simp add: ob1)
  show ?case
    unfolding step Cons.IH[OF d sub a1] maps objs by simp
qed

text \<open>
  C6, as the code has it. When the loop of lines 218 to 227 runs (the blocks being
  distinct messages, other than the triggering one, and registered in
  \<open>in_progress_message_ids\<close>), it creates one new node for every block, in the order of
  the blocks; each node has the role of the assistant and refers to the node of the
  triggering message, and its content is the whole reply, the texts of all segments
  joined, not the text of its own segment.
\<close>

theorem reply_nodes_created:
  assumes "distinct rs"
    and "message_id \<notin> set rs"
    and "set rs \<subseteq> set ids"
    and "message_nodes st message_id = Some a"
    and "i < length rs"
  shows "\<exists>st' ids'. create_nodes cfg message_id contents rs (st, ids) = Inr (st', ids')
       \<and> length (objects st') = length (objects st) + length rs
       \<and> message_nodes st' (rs ! i) = Some (length (objects st) + i)
       \<and> objects st' ! (length (objects st) + i) =
           \<lparr>message = \<lparr>role = Assistant, content = Text (concat contents),
                       name = Some (str (bot_id cfg))\<rparr>,
            too_many_images = False, replied_to = Some a\<rparr>"
proof -
  let ?n = "length (objects st)"
  have "map_of (zip rs [?n ..< ?n + length rs]) (rs ! i) = Some ([?n ..< ?n + length rs] ! i)"
    using assms(1,5) by (intro map_of_zip_nth) simp_all
  then have "(message_nodes st ++ map_of (zip rs [?n ..< ?n + length rs])) (rs ! i) = Some (?n + i)"
    using assms(5) by simp
  moreover have "(objects st @ replicate (length rs) (reply_node cfg contents a)) ! (?n + i)
      = reply_node cfg contents a"
    using assms(5) by (simp add: nth_append)
  ultimately show ?thesis
    unfolding create_nodes_closed[OF assms(1-4)] by (simp add: reply_node_def)
qed

theorem reply_nodes_created_witness:
  "\<exists>st' ids'.
     create_nodes example_config 1 [''Hi''] [100]
       (\<lparr>message_nodes = [1 \<mapsto> 0],
         objects = [\<lparr>message = \<lparr>role = User, content = Parts [text_part ''hello''],
                                name = Some (str 7)\<rparr>,
                     too_many_images = False, replied_to = None\<rparr>]\<rparr>, [100]) = Inr (st', ids')
     \<and> length (objects st') = 2
     \<and> message_nodes st' 100 = Some 1
     \<and> objects st' ! 1 =
         \<lparr>message = \<lparr>role = Assistant, content = Text ''Hi'', name = Some (str 9)\<rparr>,
          too_many_images = False, replied_to = Some 0\<rparr>"
proof -
  define st where "st = \<lparr>message_nodes = [1 \<mapsto> (0::nat)],
         objects = [\<lparr>message = \<lparr>role = User, content = Parts [text_part ''hello''],
                                name = Some (str 7)\<rparr>,
                     too_many_images = False, replied_to = None\<rparr>]\<rparr>"
  have h1: "distinct [100::nat]" by simp
  have h2: "(1::nat) \<notin> set [100]" by simp
  have h3: "set [100::nat] \<subseteq> set [100]" by simp
  have h4: "message_nodes st 1 = Some 0" by (simp add: st_def)
  have h5: "(0::nat) < length [100::nat]" by simp
  from reply_nodes_created[OF h1 h2 h3 h4 h5, of example_config "[''Hi'']"]
  show ?thesis
    by (simp add: st_def example_config_def)
qed

text \<open>
  C6 as stated fails for a reply of two segments: a fragment of 4096 characters fills the
  first segment, \<open>b\<close> opens the second, and both nodes get the joined text of 4097
  characters as their content.
\<close>

theorem joined_content_counterexample:
  "stream_loop 1 {}
     [(Some (replicate 4096 (CHR ''a'')), \<lparr>reply_result = Some 100, task_done = True, elapsed_ok = True\<rparr>),
      (Some ''b'', \<lparr>reply_result = Some 100, task_done = True, elapsed_ok = True\<rparr>),
      (None, \<lparr>reply_result = Some 101, task_done = True, elapsed_ok = True\<rparr>)]
     (stream_init []) =
   Inr \<lparr>response_messages = [100, 101],
        response_message_contents = [replicate 4096 (CHR ''a''), ''b''],
        previous_content = Some [], edit_message_task = None,
        embed = Some \<lparr>description = ''b'', color = complete, embed_fields = []\<rparr>,
        in_progress_message_ids = [100, 101],
        events = [Reply 1 100 \<lparr>description = replicate 4096 (CHR ''a''), color = incomplete,
                               embed_fields = []\<rparr>,
                  Reply 100 101 \<lparr>description = ''b'', color = complete, embed_fields = []\<rparr>]\<rparr>
   \<and> after_stream example_config
        (\<lambda>p. \<lparr>post_result = Some 200, image_sent = True, apology_sent = False\<rparr>)
        (Message 1 7 False ''draw me a cat'' [] [] None True [])
        \<lparr>message_nodes = [1 \<mapsto> 0],
         objects = [\<lparr>message = \<lparr>role = User, content = Parts [text_part ''draw me a cat''],
                                name = Some (str 7)\<rparr>,
                     too_many_images = False, replied_to = None\<rparr>]\<rparr>
        \<lparr>response_messages = [100, 101],
         response_message_contents = [replicate 4096 (CHR ''a''), ''b''],
         previous_content = Some [], edit_message_task = None,
         embed = Some \<lparr>description = ''b'', color = complete, embed_fields = []\<rparr>,
         in_progress_message_ids = [100, 101],
         events = [Reply 1 100 \<lparr>description = replicate 4096 (CHR ''a''), color = incomplete,
                                embed_fields = []\<rparr>,
                   Reply 100 101 \<lparr>description = ''b'', color = complete, embed_fields = []\<rparr>]\<rparr> =
      Inr (\<lparr>message_nodes = [1 \<mapsto> 0, 100 \<mapsto> 1, 101 \<mapsto> 2],
            objects = [\<lparr>message = \<lparr>role = User, content = Parts [text_part ''draw me a cat''],
                                   name = Some (str 7)\<rparr>,
                        too_many_images = False, replied_to = None\<rparr>,
                       \<lparr>message = \<lparr>role = Assistant,
                                   content = Text (replicate 4096 (CHR ''a'') @ ''b''),
                                   name = Some (str 9)\<rparr>,
                        too_many_images = False, replied_to = Some 0\<rparr>,
                       \<lparr>message = \<lparr>role = Assistant,
                                   content = Text (replicate 4096 (CHR ''a'') @ ''b''),
                                   name = Some (str 9)\<rparr>,
                        too_many_images = False, replied_to = Some 0\<rparr>]\<rparr>, [])
   \<and> Text (replicate 4096 (CHR ''a'') @ ''b'') \<noteq> Text (replicate 4096 (CHR ''a''))"
  by (simp add: stream_init_def on_chunk_def needs_new_message_def open_segment_def
      append_previous_def last_content_def flush_def sorted_warnings_def Let_def
      EMBED_MAX_LENGTH_def after_stream_def lower_def lower_char_def split_def
      store_node_def example_config_def numeral_2_eq_2)

text \<open>
  C1 fails on the code. An ordinary message, \<open>hello\<close> in a private channel, is answered
  by the stream \<open>Hi\<close>: the call returns, and the identifier 100 of the block it created
  is still in \<open>in_progress_message_ids\<close>, because the text does not ask for a picture
  and the loop that removes the identifiers is not reached.
\<close>

theorem in_progress_id_remains:
  "on_message (Suc 0) example_config example_world
     (Message 1 7 False ''hello'' [] [] None True [])
     (\<lparr>message_nodes = Map.empty, objects = []\<rparr>, []) =
   Some (Inr (\<lparr>message_nodes = [1 \<mapsto> 0],
               objects = [\<lparr>message = \<lparr>role = User, content = Parts [text_part ''hello''],
                                      name = Some (str 7)\<rparr>,
                           too_many_images = False, replied_to = None\<rparr>]\<rparr>,
              [100]))"
  by (simp add: on_message_def unwanted_def waits_for_reply_def example_config_def
      example_world_def visit_def current_message_text_def current_message_images_def
      current_message_content_def store_node_def update_node_def MAX_IMAGES_def
      LLM_VISION_SUPPORT_def py_take_def build_history_def history_loop_Some history_loop_None
      get_system_prompt_def stream_init_def on_chunk_def needs_new_message_def
      open_segment_def append_previous_def last_content_def flush_def sorted_warnings_def
      EMBED_MAX_LENGTH_def Let_def after_stream_def lower_def lower_char_def)

section \<open>References in the store\<close>

lemma store_ok_empty: "store_ok \<lparr>message_nodes = Map.empty, objects = []\<rparr>"
  by (simp add: store_ok_def)

lemma store_node_ok:
  assumes "store_ok st"
    and "\<forall>b. replied_to node = Some b \<longrightarrow> b \<le> length (objects st)"
  shows "store_ok (store_node key node st)"
  using assms unfolding store_ok_def store_node_def
  by (auto simp: less_Suc_eq_le dest: less_imp_le_nat)

lemma update_node_ok:
  assumes ok: "store_ok st"
    and u: "update_node key g st = Inr st'"
    and g: "\<forall>x b. replied_to (g x) = Some b \<longrightarrow> replied_to x = Some b \<or> b < length (objects st)"
  shows "store_ok st'"
proof -
  from u obtain a where a: "message_nodes st key = Some a"
    and st': "st' = st\<lparr>objects := (objects st)[a := g (objects st ! a)]\<rparr>"
    by (cases "message_nodes st key") (simp_all add: update_node_def)
  from ok a have la: "a < length (objects st)"
    by (simp add: store_ok_def)
  have "b < length (objects st)"
    if "x \<in> set ((objects st)[a := g (objects st ! a)])" "replied_to x = Some b" for x b
  proof (cases "x \<in> set (objects st)")
    case True
    with ok that(2) show ?thesis by (simp add: store_ok_def)
  next
    case False
    with that(1) have "x = g (objects st ! a)"
      using set_update_subset_insert[of "objects st" a "g (objects st ! a)"] by auto
    with that(2) g have "replied_to (objects st ! a) = Some b \<or> b < length (objects st)"
      by simp
    moreover have "objects st ! a \<in> set (objects st)"
      using la by simp
    ultimately show ?thesis
      using ok by (auto simp: store_ok_def)
  qed
  with ok show ?thesis
    unfolding st' store_ok_def by simp
qed

lemma visit_ok:
  assumes ok: "store_ok st" and v: "visit cfg m prev st = Inr st'"
  shows "store_ok st'"
proof (cases "current_message_text cfg m")
  case (Inl e)
  with v show ?thesis by (simp add: visit_Inl_text)
next
  case (Inr t)
  define st1 where "st1 = store_node (msg_id m) (node_of cfg m) st"
  have ok1: "store_ok st1"
    unfolding st1_def using ok by (rule store_node_ok) (simp add: node_of_def)
  have len1: "length (objects st1) = Suc (length (objects st))"
    by (simp add: st1_def store_node_def)
  show ?thesis
  proof (cases prev)
    case None
    with v Inr have "st' = st1" by (simp add: visit_unfold st1_def)
    with ok1 show ?thesis by simp
  next
    case (Some p)
    show ?thesis
    proof (cases "p = 0")
      case True
      with v Inr Some have "st' = st1" by (simp add: visit_unfold st1_def)
      with ok1 show ?thesis by simp
    next
      case False
      with v Inr Some have
        u: "update_node p (\<lambda>n. n\<lparr>replied_to := Some (length (objects st))\<rparr>) st1 = Inr st'"
        by (simp add: visit_unfold st1_def)
      show ?thesis
        using ok1 u by (rule update_node_ok) (simp add: len1)
    qed
  qed
qed

lemma chain_loop_ok:
  "store_ok st \<Longrightarrow> chain_loop fuel cfg fetch m prev st = Some (Inr st') \<Longrightarrow> store_ok st'"
proof (induction fuel arbitrary: m prev st)
  case 0
  then show ?case by simp
next
  case (Suc fuel)
  from Suc.prems(2) obtain st1 where v: "visit cfg m prev st = Inr st1"
    by (cases "visit cfg m prev st") simp_all
  have ok1: "store_ok st1" using Suc.prems(1) v by (rule visit_ok)
  show ?case
  proof (cases "reference m")
    case None
    with Suc.prems(2) v ok1 show ?thesis by simp
  next
    case (Some r)
    show ?thesis
    proof (cases "message_nodes st1 (ref_message_id r)")
      case known: (Some target)
      with Suc.prems(2) v Some have
        u: "update_node (msg_id m) (\<lambda>n. n\<lparr>replied_to := Some target\<rparr>) st1 = Inr st'"
        by simp
      from ok1 known have "target < length (objects st1)"
        by (simp add: store_ok_def)
      then show ?thesis
        using ok1 u by (intro update_node_ok[OF ok1 u]) simp
    next
      case None
      show ?thesis
      proof (cases "resolved r")
        case res: (Some m')
        with Suc.prems(2) v Some None have
          "chain_loop fuel cfg fetch m' (Some (msg_id m)) st1 = Some (Inr st')"
          by simp
        with ok1 show ?thesis by (rule Suc.IH)
      next
        case nores: None
        show ?thesis
        proof (cases "fetch (ref_message_id r)")
          case (Fetched m')
          with Suc.prems(2) v Some None nores have
            "chain_loop fuel cfg fetch m' (Some (msg_id m)) st1 = Some (Inr st')"
            by simp
          with ok1 show ?thesis by (rule Suc.IH)
        next
          case NotFound
          with Suc.prems(2) v Some None nores ok1 show ?thesis by simp
        next
          case HTTPError
          with Suc.prems(2) v Some None nores ok1 show ?thesis by simp
        qed
      qed
    qed
  qed
qed

lemma create_nodes_ok:
  "store_ok st \<Longrightarrow> create_nodes cfg message_id contents rs (st, ids) = Inr (st', ids') \<Longrightarrow>
   store_ok st'"
proof (induction rs arbitrary: st ids)
  case Nil
  then show ?case by simp
next
  case (Cons r rs)
  from Cons.prems(2) obtain a where a: "message_nodes st message_id = Some a"
    by (cases "message_nodes st message_id") simp_all
  define st1 where "st1 = store_node r (reply_node cfg contents a) st"
  from Cons.prems(1) a have "a < length (objects st)"
    by (simp add: store_ok_def)
  then have ok1: "store_ok st1"
    unfolding st1_def by (intro store_node_ok[OF Cons.prems(1)]) (simp add: reply_node_def)
  from Cons.prems(2) a have
    "create_nodes cfg message_id contents rs (st1, remove1 r ids) = Inr (st', ids')"
    by (simp add: st1_def reply_node_def Let_def split: if_splits)
  with ok1 show ?case by (rule Cons.IH)
qed

lemma after_stream_ok:
  assumes "store_ok st" and "after_stream cfg service msg st s = Inr (st', ids')"
  shows "store_ok st'"
  using assms
  by (auto simp: after_stream_def Let_def
      split: if_splits sum.splits option.splits dest: create_nodes_ok)

text \<open>
  The handler keeps the store well-formed: whenever it returns, every reference in the
  store it leaves still leads to an object.
\<close>

lemma on_message_ok:
  assumes "store_ok st" and "on_message fuel cfg w msg (st, ids) = Some (Inr (st', ids'))"
  shows "store_ok st'"
proof (cases "unwanted cfg msg")
  case True
  with assms show ?thesis by (simp add: on_message_def)
next
  case False
  with assms(2) obtain st1 s where c: "chain_loop fuel cfg (fetch_message w) msg None st = Some (Inr st1)"
    and a: "after_stream cfg (image_service w) msg st1 s = Inr (st', ids')"
    by (auto simp: on_message_def split: if_splits option.splits sum.splits prod.splits)
  have "store_ok st1" using assms(1) c by (rule chain_loop_ok)
  then show ?thesis using a by (rule after_stream_ok)
qed

end
